theory Spec2Isabelle
  imports Main "HOL-Library.Word"
begin

section \<open>TCP/IP port forwarding (tcpip.go)\<close>

text \<open>
  A shallow embedding of \<^verbatim>\<open>tcpip.go\<close>: the five payload structs, the local-forward
  handler \<^verbatim>\<open>DirectTCPIPHandler\<close>, the request handler
  \<^verbatim>\<open>ForwardedTCPHandler.HandleSSHRequest\<close> and the goroutines it starts.
  Effects (channel rejection, callbacks, log lines, sockets closed, goroutines started)
  are recorded as a list of events in program order. Whatever the operating system or
  the peer decides (name resolution, listening, dialling, accepting) is an input of the
  model.
\<close>

subsection \<open>Basic types\<close>

text \<open>
  Go's \<^verbatim>\<open>string\<close> and \<^verbatim>\<open>[]byte\<close> are byte sequences; an Isabelle
  \<^typ>\<open>char\<close> is one byte. \<^verbatim>\<open>uint32\<close> is a 32-bit word.
\<close>

type_synonym u32 = "32 word"
type_synonym bytes = "char list"

subsection \<open>Wire encoding of the payload structs\<close>

text \<open>
  Modelled from the spec: \<^verbatim>\<open>gossh.Marshal\<close> and \<^verbatim>\<open>gossh.Unmarshal\<close>
  (package \<^verbatim>\<open>golang.org/x/crypto/ssh\<close>) are not part of the source file. Section 6 of
  the specification fixes the encoding: fields in declaration order, every integer a
  32-bit unsigned value, every string prefixed by its length; the transport's standard
  encoding (RFC 4251) writes a \<^verbatim>\<open>uint32\<close> as four bytes, most significant first, and
  the length prefix of a string as a \<^verbatim>\<open>uint32\<close>. Decoding fails on input that is too
  short for a field, and on bytes left over after the last field.
\<close>

datatype wire_error = errShortRead | parseError

definition appendU32 :: "bytes \<Rightarrow> u32 \<Rightarrow> bytes" where
  "appendU32 buf n =
     buf @ [char_of (unat n div 2 ^ 24), char_of (unat n div 2 ^ 16),
            char_of (unat n div 2 ^ 8), char_of (unat n)]"

definition appendString :: "bytes \<Rightarrow> string \<Rightarrow> bytes" where
  "appendString buf s = appendU32 buf (of_nat (length s)) @ s"

definition parseUint32 :: "bytes \<Rightarrow> (u32 \<times> bytes) option" where
  "parseUint32 inp =
     (case inp of
        a # b # c # d # rest \<Rightarrow>
          Some (of_nat (of_char a * 2 ^ 24 + of_char b * 2 ^ 16 + of_char c * 2 ^ 8 + of_char d),
                rest)
      | _ \<Rightarrow> None)"

definition parseString :: "bytes \<Rightarrow> (string \<times> bytes) option" where
  "parseString inp =
     (case parseUint32 inp of
        None \<Rightarrow> None
      | Some (len, rest) \<Rightarrow>
          if length rest < unat len then None
          else Some (take (unat len) rest, drop (unat len) rest))"

text \<open>The structs of the source, lines 18-24 and 68-87. Field order is the wire order.\<close>

record localForwardChannelData =
  DestAddr :: string
  DestPort :: u32
  OriginAddr :: string
  OriginPort :: u32

record remoteForwardRequest =
  BindAddr :: string
  BindPort :: u32

record remoteForwardSuccess =
  BindPort_success :: u32

record remoteForwardCancelRequest =
  BindAddr_cancel :: string
  BindPort_cancel :: u32

record remoteForwardChannelData =
  DestAddr_remote :: string
  DestPort_remote :: u32
  OriginAddr_remote :: string
  OriginPort_remote :: u32

definition Marshal_localForwardChannelData :: "localForwardChannelData \<Rightarrow> bytes" where
  "Marshal_localForwardChannelData d =
     appendU32 (appendString (appendU32 (appendString [] (DestAddr d)) (DestPort d))
                  (OriginAddr d)) (OriginPort d)"

definition Marshal_remoteForwardRequest :: "remoteForwardRequest \<Rightarrow> bytes" where
  "Marshal_remoteForwardRequest r = appendU32 (appendString [] (BindAddr r)) (BindPort r)"

definition Marshal_remoteForwardSuccess :: "remoteForwardSuccess \<Rightarrow> bytes" where
  "Marshal_remoteForwardSuccess r = appendU32 [] (BindPort_success r)"

definition Marshal_remoteForwardCancelRequest :: "remoteForwardCancelRequest \<Rightarrow> bytes" where
  "Marshal_remoteForwardCancelRequest r =
     appendU32 (appendString [] (BindAddr_cancel r)) (BindPort_cancel r)"

definition Marshal_remoteForwardChannelData :: "remoteForwardChannelData \<Rightarrow> bytes" where
  "Marshal_remoteForwardChannelData d =
     appendU32 (appendString (appendU32 (appendString [] (DestAddr_remote d)) (DestPort_remote d))
                  (OriginAddr_remote d)) (OriginPort_remote d)"

text \<open>Two decoders shared by the structs: (string, uint32) and (string, uint32, string, uint32).\<close>

definition parse_string_u32 :: "bytes \<Rightarrow> wire_error + (string \<times> u32)" where
  "parse_string_u32 data =
     (if data = [] then Inl parseError
      else case parseString data of
        None \<Rightarrow> Inl errShortRead
      | Some (s, d1) \<Rightarrow>
          (case parseUint32 d1 of
             None \<Rightarrow> Inl errShortRead
           | Some (n, d2) \<Rightarrow> if d2 \<noteq> [] then Inl parseError else Inr (s, n)))"

definition parse_string_u32_string_u32 ::
  "bytes \<Rightarrow> wire_error + (string \<times> u32 \<times> string \<times> u32)" where
  "parse_string_u32_string_u32 data =
     (if data = [] then Inl parseError
      else case parseString data of
        None \<Rightarrow> Inl errShortRead
      | Some (s1, d1) \<Rightarrow>
          (case parseUint32 d1 of
             None \<Rightarrow> Inl errShortRead
           | Some (n1, d2) \<Rightarrow>
               (case parseString d2 of
                  None \<Rightarrow> Inl errShortRead
                | Some (s2, d3) \<Rightarrow>
                    (case parseUint32 d3 of
                       None \<Rightarrow> Inl errShortRead
                     | Some (n2, d4) \<Rightarrow>
                         if d4 \<noteq> [] then Inl parseError else Inr (s1, n1, s2, n2)))))"

definition Unmarshal_localForwardChannelData ::
  "bytes \<Rightarrow> wire_error + localForwardChannelData" where
  "Unmarshal_localForwardChannelData data =
     (case parse_string_u32_string_u32 data of
        Inl e \<Rightarrow> Inl e
      | Inr (s1, n1, s2, n2) \<Rightarrow>
          Inr \<lparr>DestAddr = s1, DestPort = n1, OriginAddr = s2, OriginPort = n2\<rparr>)"

definition Unmarshal_remoteForwardRequest :: "bytes \<Rightarrow> wire_error + remoteForwardRequest" where
  "Unmarshal_remoteForwardRequest data =
     (case parse_string_u32 data of
        Inl e \<Rightarrow> Inl e
      | Inr (s, n) \<Rightarrow> Inr \<lparr>BindAddr = s, BindPort = n\<rparr>)"

definition Unmarshal_remoteForwardSuccess :: "bytes \<Rightarrow> wire_error + remoteForwardSuccess" where
  "Unmarshal_remoteForwardSuccess data =
     (if data = [] then Inl parseError
      else case parseUint32 data of
        None \<Rightarrow> Inl errShortRead
      | Some (n, d1) \<Rightarrow> if d1 \<noteq> [] then Inl parseError else Inr \<lparr>BindPort_success = n\<rparr>)"

definition Unmarshal_remoteForwardCancelRequest ::
  "bytes \<Rightarrow> wire_error + remoteForwardCancelRequest" where
  "Unmarshal_remoteForwardCancelRequest data =
     (case parse_string_u32 data of
        Inl e \<Rightarrow> Inl e
      | Inr (s, n) \<Rightarrow> Inr \<lparr>BindAddr_cancel = s, BindPort_cancel = n\<rparr>)"

definition Unmarshal_remoteForwardChannelData ::
  "bytes \<Rightarrow> wire_error + remoteForwardChannelData" where
  "Unmarshal_remoteForwardChannelData data =
     (case parse_string_u32_string_u32 data of
        Inl e \<Rightarrow> Inl e
      | Inr (s1, n1, s2, n2) \<Rightarrow>
          Inr \<lparr>DestAddr_remote = s1, DestPort_remote = n1,
               OriginAddr_remote = s2, OriginPort_remote = n2\<rparr>)"

text \<open>A string fits the wire format when its length fits the 32-bit length prefix.\<close>

definition wire_string :: "string \<Rightarrow> bool" where
  "wire_string s = (length s < 2 ^ 32)"

subsection \<open>Go library functions used by the handlers\<close>

text \<open>
  \<^verbatim>\<open>strconv.Itoa\<close>, \<^verbatim>\<open>strconv.FormatInt\<close> (base 10), \<^verbatim>\<open>strconv.Atoi\<close>,
  \<^verbatim>\<open>net.JoinHostPort\<close>, \<^verbatim>\<open>net.SplitHostPort\<close> and \<^verbatim>\<open>(*net.TCPAddr).String\<close>
  belong to Go's standard library. They are written out here as the library documents
  them, with Go's \<^verbatim>\<open>int\<close> 64 bits wide.
\<close>

definition digit_char :: "nat \<Rightarrow> char" where
  "digit_char d = char_of (48 + d)"

fun FormatUint :: "nat \<Rightarrow> string" where
  "FormatUint n = (if n < 10 then [digit_char n] else FormatUint (n div 10) @ [digit_char (n mod 10)])"

declare FormatUint.simps [simp del]

definition FormatInt :: "int \<Rightarrow> string" where
  "FormatInt i = (if i < 0 then CHR ''-'' # FormatUint (nat (- i)) else FormatUint (nat i))"

definition Itoa :: "int \<Rightarrow> string" where
  "Itoa i = FormatInt i"

datatype NumError = ErrSyntax | ErrRange

definition digit_val :: "char \<Rightarrow> nat option" where
  "digit_val c = (let v = (of_char c :: nat) in if 48 \<le> v \<and> v \<le> 57 then Some (v - 48) else None)"

fun parse_digits :: "nat \<Rightarrow> string \<Rightarrow> nat option" where
  "parse_digits acc [] = Some acc"
| "parse_digits acc (c # cs) =
     (case digit_val c of None \<Rightarrow> None | Some d \<Rightarrow> parse_digits (acc * 10 + d) cs)"

text \<open>
  \<^verbatim>\<open>Atoi\<close> returns a value and an error. On a syntax error the value is 0; on a range
  error it is the nearest 64-bit bound.
\<close>

definition Atoi :: "string \<Rightarrow> int \<times> NumError option" where
  "Atoi s =
     (case s of
        [] \<Rightarrow> (0, Some ErrSyntax)
      | c # cs \<Rightarrow>
          (let neg = (c = CHR ''-'');
               body = (if c = CHR ''-'' \<or> c = CHR ''+'' then cs else s)
           in if body = [] then (0, Some ErrSyntax)
              else case parse_digits 0 body of
                None \<Rightarrow> (0, Some ErrSyntax)
              | Some n \<Rightarrow>
                  if neg then (if 2 ^ 63 < n then (- (2 ^ 63), Some ErrRange) else (- int n, None))
                  else (if 2 ^ 63 \<le> n then (2 ^ 63 - 1, Some ErrRange) else (int n, None))))"

definition JoinHostPort :: "string \<Rightarrow> string \<Rightarrow> string" where
  "JoinHostPort host port =
     (if CHR '':'' \<in> set host then ''['' @ host @ '']:'' @ port else host @ '':'' @ port)"

fun IndexByte :: "string \<Rightarrow> char \<Rightarrow> nat option" where
  "IndexByte [] c = None"
| "IndexByte (x # xs) c = (if x = c then Some 0 else map_option Suc (IndexByte xs c))"

definition LastIndexByte :: "string \<Rightarrow> char \<Rightarrow> nat option" where
  "LastIndexByte s c = map_option (\<lambda>j. length s - 1 - j) (IndexByte (rev s) c)"

text \<open>
  \<^verbatim>\<open>SplitHostPort\<close> returns host, port and an error; on an error host and port are
  empty. The errors are the five \<^verbatim>\<open>AddrError\<close> reasons of the library.
\<close>

datatype AddrError =
    missing_port | too_many_colons | missing_close_bracket
  | unexpected_open_bracket | unexpected_close_bracket

definition SplitHostPort :: "string \<Rightarrow> string \<times> string \<times> AddrError option" where
  "SplitHostPort hostport =
     (let addrErr = (\<lambda>why. ([], [], Some why));
          finish = (\<lambda>host j k i.
            if CHR ''['' \<in> set (drop j hostport) then addrErr unexpected_open_bracket
            else if CHR '']'' \<in> set (drop k hostport) then addrErr unexpected_close_bracket
            else (host, drop (i + 1) hostport, None))
      in case LastIndexByte hostport CHR '':'' of
        None \<Rightarrow> addrErr missing_port
      | Some i \<Rightarrow>
          if take 1 hostport = ''[''
          then (case IndexByte hostport CHR '']'' of
                  None \<Rightarrow> addrErr missing_close_bracket
                | Some e \<Rightarrow>
                    if e + 1 = length hostport then addrErr missing_port
                    else if e + 1 = i then finish (take (e - 1) (drop 1 hostport)) 1 (e + 1) i
                    else if take 1 (drop (e + 1) hostport) = '':'' then addrErr too_many_colons
                    else addrErr missing_port)
          else (let host = take i hostport
                in if CHR '':'' \<in> set host then addrErr too_many_colons
                   else finish host 0 0 i))"

text \<open>
  \<^verbatim>\<open>net.TCPAddr\<close>. The field \<open>IP\<close> holds the address in its printed form (empty for
  an unset address), which is all the handlers use.
\<close>

record TCPAddr =
  IP :: string
  Port :: int
  Zone :: string

definition TCPAddr_String :: "TCPAddr \<Rightarrow> string" where
  "TCPAddr_String a =
     (if Zone a \<noteq> [] then JoinHostPort (IP a @ ''%'' @ Zone a) (Itoa (Port a))
      else JoinHostPort (IP a) (Itoa (Port a)))"

text \<open>
  A \<^verbatim>\<open>net.Addr\<close> is an interface value: a \<^verbatim>\<open>*net.TCPAddr\<close> or something else, of which
  only the printed form matters. \<open>asTCPAddr\<close> is the type assertion
  \<^verbatim>\<open>.(*net.TCPAddr)\<close>; \<open>None\<close> is the nil pointer it leaves on failure.
\<close>

datatype Addr = TCP TCPAddr | OtherAddr string

fun Addr_String :: "Addr \<Rightarrow> string" where
  "Addr_String (TCP a) = TCPAddr_String a"
| "Addr_String (OtherAddr s) = s"

fun asTCPAddr :: "Addr \<Rightarrow> TCPAddr option" where
  "asTCPAddr (TCP a) = Some a"
| "asTCPAddr (OtherAddr s) = None"

subsection \<open>Handles, errors, the server and the events\<close>

text \<open>
  Listeners, sockets and channels are handles: an identity, and for listeners and
  sockets the addresses they report. A Go \<^verbatim>\<open>error\<close> is its message and whether
  \<^verbatim>\<open>errors.Is(err, net.ErrClosed)\<close> holds of it. A \<^verbatim>\<open>Context\<close> is the identity of
  the connection's context.
\<close>

datatype Listener = Listener (ln_id: nat) (ln_Addr: Addr)

datatype Conn = Conn (conn_id: nat) (LocalAddr: Addr) (RemoteAddr: Addr)

type_synonym Channel = nat

type_synonym Context = nat

record error =
  Error :: string
  is_ErrClosed :: bool

datatype RejectionReason = Prohibited | ConnectionFailed | UnknownChannelType | ResourceShortage

text \<open>
  The two callback fields of \<^verbatim>\<open>Server\<close> that the file uses. \<open>None\<close> is a nil function
  value.
\<close>

record Server =
  LocalPortForwardingCallback :: "(Context \<Rightarrow> string \<Rightarrow> u32 \<Rightarrow> bool) option"
  ReversePortForwardingCallback ::
    "(Context \<Rightarrow> TCPAddr option \<Rightarrow> TCPAddr option \<Rightarrow> int \<Rightarrow> Listener option \<Rightarrow> Conn option \<Rightarrow> bool) option"

text \<open>
  What the world answers during one call of a handler: the text of a decoding error,
  name resolution, listening, dialling, the acceptance of the new channel, and the
  printed remote address of the SSH connection.
\<close>

record Env =
  Error_wire :: "wire_error \<Rightarrow> string"
  ResolveTCPAddr :: "string \<Rightarrow> error + TCPAddr"
  ListenTCP :: "TCPAddr \<Rightarrow> error + Listener"
  DialContext :: "Context \<Rightarrow> string \<Rightarrow> error + Conn"
  Accept_newChan :: "error + Channel"
  conn_RemoteAddr :: string

text \<open>
  The goroutines the file starts with \<^verbatim>\<open>go\<close>, each with the variables it captures.
  The last argument of \<open>AcceptLoop\<close> is the printed remote address of the captured
  \<^verbatim>\<open>conn\<close>, which the loop's last log line uses.
\<close>

datatype goroutine =
    DiscardRequests Channel
  | Copy_Channel_Conn Channel Conn
  | Copy_Conn_Channel Conn Channel
  | CtxWatcher Context string
  | AcceptLoop Context Listener TCPAddr string string int string
  | ForwardTask Context Listener Conn string int string int bytes

text \<open>
  The effects, in program order. \<open>forwards_store\<close>, \<open>forwards_load\<close> and
  \<open>forwards_delete\<close> are the accesses to the map \<^verbatim>\<open>h.forwards\<close>; \<open>forwards_make\<close> is its
  allocation at line 100.
\<close>

datatype event =
    Reject RejectionReason string
  | Call_LocalPortForwardingCallback Context string u32
  | Call_ReversePortForwardingCallback
      Context "TCPAddr option" "TCPAddr option" int "Listener option" "Conn option"
  | Dial string
  | Listen TCPAddr
  | Accept_Channel
  | OpenChannel string bytes
  | Close_Conn Conn
  | Close_Listener Listener
  | logMsg string "string list"
  | Lock
  | Unlock
  | forwards_make
  | forwards_store string Listener
  | forwards_load string
  | forwards_delete string
  | lwg_Add
  | lwg_Done
  | Go goroutine

definition forwardedTCPChannelType :: string where
  "forwardedTCPChannelType = ''forwarded-tcpip''"

subsection \<open>DirectTCPIPHandler (lines 28-66)\<close>

text \<open>
  The handler's effects, in order. The parameter \<^verbatim>\<open>conn\<close> of the source is unused;
  \<open>extraData\<close> is \<^verbatim>\<open>newChan.ExtraData()\<close>.
\<close>

definition DirectTCPIPHandler :: "Env \<Rightarrow> Server \<Rightarrow> bytes \<Rightarrow> Context \<Rightarrow> event list" where
  "DirectTCPIPHandler env srv extraData ctx =
     (case Unmarshal_localForwardChannelData extraData of
        Inl err \<Rightarrow>
          [Reject ConnectionFailed (''error parsing forward data: '' @ Error_wire env err)]
      | Inr d \<Rightarrow>
          (case LocalPortForwardingCallback srv of
             None \<Rightarrow> [Reject Prohibited ''port forwarding is disabled'']
           | Some cb \<Rightarrow>
               Call_LocalPortForwardingCallback ctx (DestAddr d) (DestPort d) #
               (if \<not> cb ctx (DestAddr d) (DestPort d)
                then [Reject Prohibited ''port forwarding is disabled'']
                else
                  (let dest = JoinHostPort (DestAddr d) (FormatInt (uint (DestPort d)))
                   in Dial dest #
                      (case DialContext env ctx dest of
                         Inl err \<Rightarrow> [Reject ConnectionFailed (Error err)]
                       | Inr dconn \<Rightarrow>
                           Accept_Channel #
                           (case Accept_newChan env of
                              Inl err \<Rightarrow> [Close_Conn dconn]
                            | Inr ch \<Rightarrow>
                                [Go (DiscardRequests ch),
                                 Go (Copy_Channel_Conn ch dconn),
                                 Go (Copy_Conn_Channel dconn ch)]))))))"

subsection \<open>ForwardedTCPHandler.HandleSSHRequest (lines 97-248)\<close>

text \<open>
  The handler's state is the map \<^verbatim>\<open>forwards\<close>; \<open>None\<close> is the nil map of a fresh
  handler. \<open>entries\<close> reads it the way Go reads a map that may be nil.
\<close>

record ForwardedTCPHandler =
  forwards :: "(string \<rightharpoonup> Listener) option"

definition entries :: "ForwardedTCPHandler \<Rightarrow> string \<rightharpoonup> Listener" where
  "entries h = (case forwards h of None \<Rightarrow> Map.empty | Some m \<Rightarrow> m)"

record Request =
  Type :: string
  Payload :: bytes

text \<open>
  The two results of the function: \<open>Reply ok payload\<close>, where the payload \<open>None\<close> is
  the nil slice, or a panic (the call of a nil function value).
\<close>

datatype reply = Reply bool "bytes option" | Panic

text \<open>Lines 98-102: the map is allocated on first use, under the lock.\<close>

definition init_forwards :: "ForwardedTCPHandler \<Rightarrow> ForwardedTCPHandler \<times> event list" where
  "init_forwards h =
     (case forwards h of
        None \<Rightarrow> (h\<lparr>forwards := Some Map.empty\<rparr>, [Lock, forwards_make, Unlock])
      | Some m \<Rightarrow> (h, [Lock, Unlock]))"

text \<open>Lines 133-134: the port of the listener's address, errors ignored.\<close>

definition listener_port :: "Listener \<Rightarrow> int" where
  "listener_port ln =
     (let destPortStr = fst (snd (SplitHostPort (Addr_String (ln_Addr ln))))
      in fst (Atoi destPortStr))"

text \<open>Lines 105-222, the case \<^verbatim>\<open>"tcpip-forward"\<close>.\<close>

definition tcpip_forward ::
  "Env \<Rightarrow> ForwardedTCPHandler \<Rightarrow> Context \<Rightarrow> Server \<Rightarrow> Request
     \<Rightarrow> reply \<times> ForwardedTCPHandler \<times> event list" where
  "tcpip_forward env h ctx srv req =
     (case Unmarshal_remoteForwardRequest (Payload req) of
        Inl err \<Rightarrow>
          (Reply False (Some []), h,
           [logMsg ''failed to unmarshal %s payload s from %s - %s''
              [Type req, conn_RemoteAddr env, Error_wire env err]])
      | Inr reqPayload \<Rightarrow>
          (case ReversePortForwardingCallback srv of
             None \<Rightarrow> (Reply False (Some ''port forwarding is disabled''), h, [])
           | Some cb \<Rightarrow>
               (let addrstr = JoinHostPort (BindAddr reqPayload) (Itoa (uint (BindPort reqPayload)))
                in case ResolveTCPAddr env addrstr of
                  Inl err \<Rightarrow>
                    (Reply False (Some ''port forwarding disabled - invalid address requested''),
                     h, [])
                | Inr addr \<Rightarrow>
                    if \<not> cb ctx (Some addr) None 0 None None
                    then (Reply False (Some ''port forwarding is rejected''), h,
                          [Call_ReversePortForwardingCallback ctx (Some addr) None 0 None None])
                    else
                      (case ListenTCP env addr of
                         Inl err \<Rightarrow>
                           (Reply False (Some []), h,
                            [Call_ReversePortForwardingCallback ctx (Some addr) None 0 None None,
                             Listen addr,
                             logMsg ''failed to listen on %s - %s''
                               [TCPAddr_String addr, Error err]])
                       | Inr ln \<Rightarrow>
                           (let destPort = listener_port ln
                            in (Reply True (Some (Marshal_remoteForwardSuccess
                                   \<lparr>BindPort_success = word_of_int destPort\<rparr>)),
                                h\<lparr>forwards := Some ((entries h)(addrstr \<mapsto> ln))\<rparr>,
                                [Call_ReversePortForwardingCallback ctx (Some addr) None 0 None None,
                                 Listen addr,
                                 logMsg ''port forward started on %s for %s''
                                   [TCPAddr_String addr, conn_RemoteAddr env],
                                 Call_ReversePortForwardingCallback ctx (Some addr) None 1
                                   (Some ln) None,
                                 Lock, forwards_store addrstr ln, Unlock,
                                 Go (CtxWatcher ctx addrstr),
                                 Go (AcceptLoop ctx ln addr addrstr (BindAddr reqPayload)
                                       destPort (conn_RemoteAddr env))]))))))"

text \<open>Lines 224-244, the case \<^verbatim>\<open>"cancel-tcpip-forward"\<close>.\<close>

definition cancel_tcpip_forward ::
  "Env \<Rightarrow> ForwardedTCPHandler \<Rightarrow> Context \<Rightarrow> Server \<Rightarrow> Request
     \<Rightarrow> reply \<times> ForwardedTCPHandler \<times> event list" where
  "cancel_tcpip_forward env h ctx srv req =
     (case Unmarshal_remoteForwardCancelRequest (Payload req) of
        Inl err \<Rightarrow>
          (Reply False (Some []), h,
           [logMsg ''failed to unmarshal %s payload from %s - %s''
              [Type req, conn_RemoteAddr env, Error_wire env err]])
      | Inr reqPayload \<Rightarrow>
          (let addrstr = JoinHostPort (BindAddr_cancel reqPayload)
                           (Itoa (uint (BindPort_cancel reqPayload)))
           in case ResolveTCPAddr env addrstr of
             Inl err \<Rightarrow>
               (Reply False
                  (Some ''port forwarding cancellation rejected - invalid address requested''),
                h, [])
           | Inr addr \<Rightarrow>
               (case ReversePortForwardingCallback srv of
                  None \<Rightarrow> (Panic, h, [Lock, forwards_load addrstr, Unlock])
                | Some cb \<Rightarrow>
                    (Reply True None, h,
                     [Lock, forwards_load addrstr, Unlock,
                      Call_ReversePortForwardingCallback ctx (Some addr) None (- 1) None None] @
                     (case entries h addrstr of
                        None \<Rightarrow> []
                      | Some ln \<Rightarrow>
                          [logMsg ''port forward cancelled on %s for %s''
                             [addrstr, conn_RemoteAddr env],
                           Close_Listener ln])))))"

text \<open>
  The whole function: the allocation of the map, then the switch on the request type.
  The connection that line 103 takes from the context is taken to be there; the model
  keeps of it the printed remote address (\<open>conn_RemoteAddr\<close>).
\<close>

definition HandleSSHRequest ::
  "Env \<Rightarrow> ForwardedTCPHandler \<Rightarrow> Context \<Rightarrow> Server \<Rightarrow> Request
     \<Rightarrow> reply \<times> ForwardedTCPHandler \<times> event list" where
  "HandleSSHRequest env h ctx srv req =
     (let (h0, evs0) = init_forwards h;
          (r, h1, evs1) =
            (if Type req = ''tcpip-forward'' then tcpip_forward env h0 ctx srv req
             else if Type req = ''cancel-tcpip-forward'' then cancel_tcpip_forward env h0 ctx srv req
             else (Reply False None, h0, []))
      in (r, h1, evs0 @ evs1))"

subsection \<open>The goroutines of a forward (lines 138-221)\<close>

text \<open>
  The accept loop's body on an accepted socket \<open>c\<close> (lines 157-166): the origin is read
  from the socket's remote address, the payload of the channel is built, the wait group
  is incremented and the forwarding task is started.
\<close>

definition accept_iteration ::
  "Context \<Rightarrow> Listener \<Rightarrow> string \<Rightarrow> int \<Rightarrow> Conn \<Rightarrow> goroutine" where
  "accept_iteration ctx ln bindAddr destPort c =
     (let sp = SplitHostPort (Addr_String (RemoteAddr c));
          originAddr = fst sp;
          originPort = fst (Atoi (fst (snd sp)));
          payload = Marshal_remoteForwardChannelData
            \<lparr>DestAddr_remote = bindAddr, DestPort_remote = word_of_int destPort,
             OriginAddr_remote = originAddr, OriginPort_remote = word_of_int originPort\<rparr>
      in ForwardTask ctx ln c bindAddr destPort originAddr originPort payload)"

text \<open>
  The forwarding task up to \<^verbatim>\<open>wg.Wait()\<close> (lines 168-209); \<open>r\<close> is the result of
  \<^verbatim>\<open>conn.OpenChannel\<close>. The second component tells whether the task goes on to relay
  (it returns at line 172 when the channel could not be opened).
\<close>

definition task_open ::
  "Context \<Rightarrow> Listener \<Rightarrow> Conn \<Rightarrow> string \<Rightarrow> int \<Rightarrow> string \<Rightarrow> int \<Rightarrow> bytes
     \<Rightarrow> error + Channel \<Rightarrow> event list \<times> bool" where
  "task_open ctx ln c bindAddr destPort originAddr originPort payload r =
     (case r of
        Inl err \<Rightarrow>
          ([OpenChannel forwardedTCPChannelType payload,
            logMsg ''failed to open channel on %s:%d for %s:%d - %s''
              [bindAddr, Itoa destPort, originAddr, Itoa originPort, Error err],
            Close_Conn c], False)
      | Inr ch \<Rightarrow>
          (let claddr = asTCPAddr (LocalAddr c);
               craddr = asTCPAddr (RemoteAddr c)
           in ([OpenChannel forwardedTCPChannelType payload] @
               (if claddr = None
                then [logMsg ''invalid channel local address %v'' [Addr_String (LocalAddr c)],
                      Close_Conn c]
                else []) @
               (if craddr = None
                then [logMsg ''invalid channel remote address %v'' [Addr_String (RemoteAddr c)],
                      Close_Conn c]
                else []) @
               [Call_ReversePortForwardingCallback ctx claddr craddr 2 (Some ln) (Some c),
                logMsg ''opened channel on %s:%d for %s:%d''
                  [bindAddr, Itoa destPort, originAddr, Itoa originPort],
                Go (DiscardRequests ch),
                Go (Copy_Channel_Conn ch c),
                Go (Copy_Conn_Channel c ch)], True)))"

text \<open>The task after \<^verbatim>\<open>wg.Wait()\<close> has returned (lines 211-212).\<close>

definition task_close ::
  "Context \<Rightarrow> Listener \<Rightarrow> Conn \<Rightarrow> string \<Rightarrow> int \<Rightarrow> string \<Rightarrow> int \<Rightarrow> event list" where
  "task_close ctx ln c bindAddr destPort originAddr originPort =
     [Call_ReversePortForwardingCallback ctx
        (asTCPAddr (LocalAddr c)) (asTCPAddr (RemoteAddr c)) (- 2) (Some ln) None,
      logMsg ''closed channel on %s:%d for %s:%d''
        [bindAddr, Itoa destPort, originAddr, Itoa originPort]]"

text \<open>The whole task (lines 166-213), with the deferred \<^verbatim>\<open>lwg.Done()\<close> last.\<close>

definition forward_task ::
  "Context \<Rightarrow> Listener \<Rightarrow> Conn \<Rightarrow> string \<Rightarrow> int \<Rightarrow> string \<Rightarrow> int \<Rightarrow> bytes
     \<Rightarrow> error + Channel \<Rightarrow> event list" where
  "forward_task ctx ln c bindAddr destPort originAddr originPort payload r =
     (let (evs, relays) = task_open ctx ln c bindAddr destPort originAddr originPort payload r
      in evs @
         (if relays then task_close ctx ln c bindAddr destPort originAddr originPort else []) @
         [lwg_Done])"

subsection \<open>The handler and its goroutines as a transition system\<close>

text \<open>
  One \<^verbatim>\<open>ForwardedTCPHandler\<close> of one \<^verbatim>\<open>Server\<close>, the calls of \<^verbatim>\<open>HandleSSHRequest\<close>
  and the goroutines they start: the context watcher (lines 138-146), the accept loop
  (lines 147-221) and the forwarding tasks (lines 166-213). A state holds the handler,
  the contexts that are done, the listeners that were closed, and for every goroutine
  where it stands. An action is one goroutine running from one blocking point (or one
  critical section) to the next. The relay goroutines and \<^verbatim>\<open>DiscardRequests\<close> do not
  touch the handler and are not part of the state. The callback field of the server is
  taken not to change while goroutines run.
\<close>

datatype origin = Handler | Loop nat | Task nat nat | Watcher nat

datatype watcher_pc = Blocked | Found Listener | Exited

record ctx_watcher =
  w_ctx :: Context
  w_addrstr :: string
  w_pc :: watcher_pc

text \<open>
  The accept loop is \<open>Accepting\<close> (blocked in \<^verbatim>\<open>ln.Accept()\<close>, line 150), \<open>Waiting\<close>
  (blocked in \<^verbatim>\<open>lwg.Wait()\<close>, line 215), \<open>Deleting\<close> (before the critical section of
  lines 216-218), \<open>Stopping\<close> (before the callback of line 219) or \<open>Finished\<close>.
\<close>

datatype loop_pc = Accepting | Waiting | Deleting | Stopping | Finished

record accept_loop =
  l_ctx :: Context
  l_ln :: Listener
  l_addr :: TCPAddr
  l_addrstr :: string
  l_bindAddr :: string
  l_destPort :: int
  l_remote :: string
  l_pc :: loop_pc

text \<open>
  A forwarding task is \<open>Starting\<close> (before \<^verbatim>\<open>conn.OpenChannel\<close> returns), \<open>Relaying\<close>
  (blocked in \<^verbatim>\<open>wg.Wait()\<close>, line 209) or \<open>Returned\<close> (\<^verbatim>\<open>lwg.Done()\<close> has run).
\<close>

datatype task_pc = Starting | Relaying | Returned

record task_state =
  t_loop :: nat
  t_ctx :: Context
  t_ln :: Listener
  t_conn :: Conn
  t_bindAddr :: string
  t_destPort :: int
  t_originAddr :: string
  t_originPort :: int
  t_payload :: bytes
  t_pc :: task_pc

text \<open>\<open>lwg\<close> gives the counter of the wait group of each accept loop.\<close>

record system =
  handler :: ForwardedTCPHandler
  done_ctxs :: "Context set"
  closed :: "Listener set"
  watchers :: "ctx_watcher list"
  loops :: "accept_loop list"
  lwg :: "nat \<Rightarrow> nat"
  tasks :: "task_state list"
  trace :: "(origin \<times> event) list"
  panicked :: bool

definition init_system :: system where
  "init_system =
     \<lparr>handler = \<lparr>forwards = None\<rparr>, done_ctxs = {}, closed = {}, watchers = [], loops = [],
      lwg = (\<lambda>l. 0), tasks = [], trace = [], panicked = False\<rparr>"

datatype action =
    Call_HandleSSHRequest Env Context Request
  | Ctx_Done Context
  | Watcher_Lookup nat
  | Watcher_Close nat
  | Loop_Accept nat "error + Conn"
  | Loop_Wait nat
  | Loop_Delete nat
  | Loop_Stopped nat
  | Task_Open nat "error + Channel"
  | Task_Return nat

text \<open>
  What an event of a call of \<^verbatim>\<open>HandleSSHRequest\<close> does to the state: a goroutine that
  is started enters it, a listener that is closed is recorded.
\<close>

fun effect :: "system \<Rightarrow> event \<Rightarrow> system" where
  "effect s (Go (CtxWatcher ctx addrstr)) =
     s\<lparr>watchers := watchers s @ [\<lparr>w_ctx = ctx, w_addrstr = addrstr, w_pc = Blocked\<rparr>]\<rparr>"
| "effect s (Go (AcceptLoop ctx ln addr addrstr bindAddr destPort remote)) =
     s\<lparr>loops := loops s @
        [\<lparr>l_ctx = ctx, l_ln = ln, l_addr = addr, l_addrstr = addrstr, l_bindAddr = bindAddr,
          l_destPort = destPort, l_remote = remote, l_pc = Accepting\<rparr>]\<rparr>"
| "effect s (Close_Listener ln) = s\<lparr>closed := insert ln (closed s)\<rparr>"
| "effect s e = s"

fun start_task :: "nat \<Rightarrow> system \<Rightarrow> goroutine \<Rightarrow> system" where
  "start_task l s (ForwardTask ctx ln c bindAddr destPort originAddr originPort payload) =
     s\<lparr>tasks := tasks s @
        [\<lparr>t_loop = l, t_ctx = ctx, t_ln = ln, t_conn = c, t_bindAddr = bindAddr,
          t_destPort = destPort, t_originAddr = originAddr, t_originPort = originPort,
          t_payload = payload, t_pc = Starting\<rparr>]\<rparr>"
| "start_task l s g = s"

definition emit :: "origin \<Rightarrow> event list \<Rightarrow> system \<Rightarrow> system" where
  "emit who evs s = s\<lparr>trace := trace s @ map (Pair who) evs\<rparr>"

text \<open>A call of \<^verbatim>\<open>HandleSSHRequest\<close>, run as a whole.\<close>

definition step_call :: "Server \<Rightarrow> Env \<Rightarrow> Context \<Rightarrow> Request \<Rightarrow> system \<Rightarrow> system option" where
  "step_call srv env ctx req s =
     (case HandleSSHRequest env (handler s) ctx srv req of
        (r, h, evs) \<Rightarrow>
          Some (foldl effect (emit Handler evs (s\<lparr>handler := h, panicked := (r = Panic)\<rparr>)) evs))"

text \<open>Lines 139-142: the watcher wakes when its context is done and looks the key up.\<close>

definition step_watcher_lookup :: "nat \<Rightarrow> system \<Rightarrow> system option" where
  "step_watcher_lookup w s =
     (if w < length (watchers s) \<and> w_pc (watchers s ! w) = Blocked \<and>
         w_ctx (watchers s ! w) \<in> done_ctxs s
      then Some (emit (Watcher w) [Lock, forwards_load (w_addrstr (watchers s ! w)), Unlock]
             (s\<lparr>watchers := (watchers s)[w := (watchers s ! w)
                  \<lparr>w_pc := (case entries (handler s) (w_addrstr (watchers s ! w)) of
                             None \<Rightarrow> Exited
                           | Some ln \<Rightarrow> Found ln)\<rparr>]\<rparr>))
      else None)"

text \<open>Lines 143-145.\<close>

definition step_watcher_close :: "nat \<Rightarrow> system \<Rightarrow> system option" where
  "step_watcher_close w s =
     (if w < length (watchers s)
      then (case w_pc (watchers s ! w) of
              Found ln \<Rightarrow>
                Some (emit (Watcher w) [Close_Listener ln]
                  (s\<lparr>watchers := (watchers s)[w := (watchers s ! w)\<lparr>w_pc := Exited\<rparr>],
                     closed := insert ln (closed s)\<rparr>))
            | _ \<Rightarrow> None)
      else None)"

text \<open>
  Lines 150-166 and 213: \<^verbatim>\<open>ln.Accept()\<close> returns. It returns a socket only while the
  listener is open, and an error that is \<^verbatim>\<open>net.ErrClosed\<close> only once it is closed.
\<close>

definition step_loop_accept :: "nat \<Rightarrow> error + Conn \<Rightarrow> system \<Rightarrow> system option" where
  "step_loop_accept l r s =
     (if l < length (loops s) \<and> l_pc (loops s ! l) = Accepting
      then (let L = loops s ! l in
            case r of
              Inl err \<Rightarrow>
                if is_ErrClosed err \<and> l_ln L \<notin> closed s then None
                else Some (emit (Loop l)
                       (if \<not> is_ErrClosed err
                        then [logMsg ''failed to accept connection on %s - %s''
                                [Addr_String (ln_Addr (l_ln L)), Error err]]
                        else [])
                       (s\<lparr>loops := (loops s)[l := L\<lparr>l_pc := Waiting\<rparr>]\<rparr>))
            | Inr c \<Rightarrow>
                if l_ln L \<in> closed s then None
                else (let g = accept_iteration (l_ctx L) (l_ln L) (l_bindAddr L) (l_destPort L) c
                      in Some (start_task l
                           (emit (Loop l) [lwg_Add, Go g] (s\<lparr>lwg := (lwg s)(l := lwg s l + 1)\<rparr>))
                           g)))
      else None)"

text \<open>Line 215: \<^verbatim>\<open>lwg.Wait()\<close> returns when the counter is zero.\<close>

definition step_loop_wait :: "nat \<Rightarrow> system \<Rightarrow> system option" where
  "step_loop_wait l s =
     (if l < length (loops s) \<and> l_pc (loops s ! l) = Waiting \<and> lwg s l = 0
      then Some (s\<lparr>loops := (loops s)[l := (loops s ! l)\<lparr>l_pc := Deleting\<rparr>]\<rparr>)
      else None)"

text \<open>Lines 216-218.\<close>

definition step_loop_delete :: "nat \<Rightarrow> system \<Rightarrow> system option" where
  "step_loop_delete l s =
     (if l < length (loops s) \<and> l_pc (loops s ! l) = Deleting
      then Some (emit (Loop l) [Lock, forwards_delete (l_addrstr (loops s ! l)), Unlock]
             (s\<lparr>loops := (loops s)[l := (loops s ! l)\<lparr>l_pc := Stopping\<rparr>],
                handler := (handler s)
                  \<lparr>forwards := map_option (\<lambda>m. m(l_addrstr (loops s ! l) := None))
                                 (forwards (handler s))\<rparr>\<rparr>))
      else None)"

text \<open>Lines 219-220.\<close>

definition step_loop_stopped :: "nat \<Rightarrow> system \<Rightarrow> system option" where
  "step_loop_stopped l s =
     (if l < length (loops s) \<and> l_pc (loops s ! l) = Stopping
      then (let L = loops s ! l in
            Some (emit (Loop l)
              [Call_ReversePortForwardingCallback (l_ctx L) (Some (l_addr L)) None (- 1) None None,
               logMsg ''port forward ended on %s for %s'' [TCPAddr_String (l_addr L), l_remote L]]
              (s\<lparr>loops := (loops s)[l := L\<lparr>l_pc := Finished\<rparr>]\<rparr>)))
      else None)"

text \<open>
  Lines 167-209: \<^verbatim>\<open>conn.OpenChannel\<close> returns. On an error the task returns and its
  deferred \<^verbatim>\<open>lwg.Done()\<close> runs; otherwise it starts the relay and blocks in
  \<^verbatim>\<open>wg.Wait()\<close>.
\<close>

definition step_task_open :: "nat \<Rightarrow> error + Channel \<Rightarrow> system \<Rightarrow> system option" where
  "step_task_open t r s =
     (if t < length (tasks s) \<and> t_pc (tasks s ! t) = Starting
      then (let T = tasks s ! t;
                (evs, relays) = task_open (t_ctx T) (t_ln T) (t_conn T) (t_bindAddr T)
                   (t_destPort T) (t_originAddr T) (t_originPort T) (t_payload T) r
            in if relays
               then Some (emit (Task (t_loop T) t) evs
                      (s\<lparr>tasks := (tasks s)[t := T\<lparr>t_pc := Relaying\<rparr>]\<rparr>))
               else Some (emit (Task (t_loop T) t) (evs @ [lwg_Done])
                      (s\<lparr>tasks := (tasks s)[t := T\<lparr>t_pc := Returned\<rparr>],
                         lwg := (lwg s)(t_loop T := lwg s (t_loop T) - 1)\<rparr>)))
      else None)"

text \<open>Lines 209-213: the relay has ended, \<^verbatim>\<open>wg.Wait()\<close> returns.\<close>

definition step_task_return :: "nat \<Rightarrow> system \<Rightarrow> system option" where
  "step_task_return t s =
     (if t < length (tasks s) \<and> t_pc (tasks s ! t) = Relaying
      then (let T = tasks s ! t in
            Some (emit (Task (t_loop T) t)
              (task_close (t_ctx T) (t_ln T) (t_conn T) (t_bindAddr T) (t_destPort T)
                 (t_originAddr T) (t_originPort T) @ [lwg_Done])
              (s\<lparr>tasks := (tasks s)[t := T\<lparr>t_pc := Returned\<rparr>],
                 lwg := (lwg s)(t_loop T := lwg s (t_loop T) - 1)\<rparr>)))
      else None)"

text \<open>One step. After a panic the program has ended and nothing runs.\<close>

fun step :: "Server \<Rightarrow> action \<Rightarrow> system \<Rightarrow> system option" where
  "step srv a s =
     (if panicked s then None
      else case a of
        Call_HandleSSHRequest env ctx req \<Rightarrow> step_call srv env ctx req s
      | Ctx_Done ctx \<Rightarrow> Some (s\<lparr>done_ctxs := insert ctx (done_ctxs s)\<rparr>)
      | Watcher_Lookup w \<Rightarrow> step_watcher_lookup w s
      | Watcher_Close w \<Rightarrow> step_watcher_close w s
      | Loop_Accept l r \<Rightarrow> step_loop_accept l r s
      | Loop_Wait l \<Rightarrow> step_loop_wait l s
      | Loop_Delete l \<Rightarrow> step_loop_delete l s
      | Loop_Stopped l \<Rightarrow> step_loop_stopped l s
      | Task_Open t r \<Rightarrow> step_task_open t r s
      | Task_Return t \<Rightarrow> step_task_return t s)"

declare step.simps [simp del]

text \<open>An execution: the actions run one after the other, from the given state.\<close>

fun run :: "Server \<Rightarrow> action list \<Rightarrow> system \<Rightarrow> system option" where
  "run srv [] s = Some s"
| "run srv (a # as) s = (case step srv a s of None \<Rightarrow> None | Some s' \<Rightarrow> run srv as s')"

text \<open>
  A listener for the key \<open>k\<close> is accepting connections: an accept loop for \<open>k\<close> is
  blocked in \<^verbatim>\<open>Accept\<close> on a listener that has not been closed.
\<close>

definition accepting :: "system \<Rightarrow> string \<Rightarrow> bool" where
  "accepting s k =
     (\<exists>L \<in> set (loops s). l_addrstr L = k \<and> l_pc L = Accepting \<and> l_ln L \<notin> closed s)"

text \<open>The registry that the stores and deletions of a trace build.\<close>

fun apply_event :: "(string \<rightharpoonup> Listener) \<Rightarrow> event \<Rightarrow> (string \<rightharpoonup> Listener)" where
  "apply_event m (forwards_store k ln) = m(k \<mapsto> ln)"
| "apply_event m (forwards_delete k) = m(k := None)"
| "apply_event m e = m"

definition replay :: "event list \<Rightarrow> string \<rightharpoonup> Listener" where
  "replay evs = foldl apply_event Map.empty evs"

text \<open>
  \<open>under_lock held evs\<close>: along \<open>evs\<close>, starting with the mutex held or not, \<^verbatim>\<open>Lock\<close>
  and \<^verbatim>\<open>Unlock\<close> alternate and every access to the map happens while the mutex is held.
\<close>

fun under_lock :: "bool \<Rightarrow> event list \<Rightarrow> bool" where
  "under_lock held [] = True"
| "under_lock held (Lock # evs) = (\<not> held \<and> under_lock True evs)"
| "under_lock held (Unlock # evs) = (held \<and> under_lock False evs)"
| "under_lock held (forwards_make # evs) = (held \<and> under_lock held evs)"
| "under_lock held (forwards_store k ln # evs) = (held \<and> under_lock held evs)"
| "under_lock held (forwards_load k # evs) = (held \<and> under_lock held evs)"
| "under_lock held (forwards_delete k # evs) = (held \<and> under_lock held evs)"
| "under_lock held (e # evs) = under_lock held evs"

text \<open>
  The two callbacks of claim C5: the stopped callback (signal \<open>-1\<close>) made by accept loop
  \<open>l\<close>, and a channel-open callback (signal 2) made by a task of loop \<open>l\<close>.
\<close>

fun loop_stopped_event :: "nat \<Rightarrow> origin \<times> event \<Rightarrow> bool" where
  "loop_stopped_event l (Loop l', Call_ReversePortForwardingCallback ctx a b sig ln c) =
     (l' = l \<and> sig = - 1)"
| "loop_stopped_event l e = False"

fun task_open_event :: "nat \<Rightarrow> origin \<times> event \<Rightarrow> bool" where
  "task_open_event l (Task l' t, Call_ReversePortForwardingCallback ctx a b sig ln c) =
     (l' = l \<and> sig = 2)"
| "task_open_event l e = False"

text \<open>
  \<open>no_open_after_stopped l stopped tr\<close>: along \<open>tr\<close>, once the stopped callback of loop
  \<open>l\<close> has occurred (or if \<open>stopped\<close> says it already has), no channel-open callback of a
  task of \<open>l\<close> occurs.
\<close>

fun no_open_after_stopped :: "nat \<Rightarrow> bool \<Rightarrow> (origin \<times> event) list \<Rightarrow> bool" where
  "no_open_after_stopped l stopped [] = True"
| "no_open_after_stopped l stopped (e # tr) =
     ((stopped \<longrightarrow> \<not> task_open_event l e) \<and>
      no_open_after_stopped l (stopped \<or> loop_stopped_event l e) tr)"

text \<open>Whether the mutex is held after the events \<open>evs\<close>.\<close>

fun held_after :: "bool \<Rightarrow> event list \<Rightarrow> bool" where
  "held_after held [] = held"
| "held_after held (Lock # evs) = held_after True evs"
| "held_after held (Unlock # evs) = held_after False evs"
| "held_after held (e # evs) = held_after held evs"

text \<open>The accept loop that an event starts, if it starts one.\<close>

fun loop_of :: "event \<Rightarrow> accept_loop list" where
  "loop_of (Go (AcceptLoop ctx ln addr addrstr bindAddr destPort remote)) =
     [\<lparr>l_ctx = ctx, l_ln = ln, l_addr = addr, l_addrstr = addrstr, l_bindAddr = bindAddr,
       l_destPort = destPort, l_remote = remote, l_pc = Accepting\<rparr>]"
| "loop_of e = []"

text \<open>
  \<open>has_loop ls k ln\<close>: among the accept loops \<open>ls\<close> there is one for the key \<open>k\<close> and
  the listener \<open>ln\<close> that has not yet run the deletion of lines 216-218.
\<close>

definition has_loop :: "accept_loop list \<Rightarrow> string \<Rightarrow> Listener \<Rightarrow> bool" where
  "has_loop ls k ln =
     (\<exists>l < length ls. l_addrstr (ls ! l) = k \<and> l_ln (ls ! l) = ln \<and>
        l_pc (ls ! l) \<in> {Accepting, Waiting, Deleting})"

text \<open>
  The facts about the registry that hold in every state of every execution: every entry
  has its accept loop, the accesses to the map respect the mutex, the registry is what
  the stores and deletions of the trace build, stores come from \<^verbatim>\<open>HandleSSHRequest\<close>
  and deletions from accept loops.
\<close>

definition registry_inv :: "system \<Rightarrow> bool" where
  "registry_inv s =
     ((\<forall>k ln. entries (handler s) k = Some ln \<longrightarrow> has_loop (loops s) k ln) \<and>
      under_lock False (map snd (trace s)) \<and> \<not> held_after False (map snd (trace s)) \<and>
      entries (handler s) = replay (map snd (trace s)) \<and>
      (\<forall>(who, e) \<in> set (trace s).
         (\<forall>k ln. e = forwards_store k ln \<longrightarrow> who = Handler) \<and>
         (\<forall>k. e = forwards_delete k \<longrightarrow> (\<exists>l. who = Loop l))))"

text \<open>What claim C2 compares for a key: the entry of the registry, and whether a listener
  for the key is accepting.\<close>

definition observe :: "string \<Rightarrow> system \<Rightarrow> Listener option \<times> bool" where
  "observe k s = (entries (handler s) k, accepting s k)"

text \<open>The number of tasks of accept loop \<open>l\<close> that have not returned.\<close>

definition live_tasks :: "nat \<Rightarrow> task_state list \<Rightarrow> nat" where
  "live_tasks l ts = length (filter (\<lambda>T. t_loop T = l \<and> t_pc T \<noteq> Returned) ts)"

text \<open>
  The facts about the wait group that hold in every state of every execution: the
  counter of each loop is the number of its tasks that have not returned; a loop that is
  past \<^verbatim>\<open>lwg.Wait()\<close> has its counter at zero; a loop whose stopped callback is in the
  trace is finished; and no channel-open callback of a task follows the stopped callback
  of its loop.
\<close>

definition wait_inv :: "system \<Rightarrow> bool" where
  "wait_inv s =
     ((\<forall>l. lwg s l = live_tasks l (tasks s)) \<and>
      (\<forall>l < length (loops s).
         l_pc (loops s ! l) \<in> {Deleting, Stopping, Finished} \<longrightarrow> lwg s l = 0) \<and>
      (\<forall>l. (\<exists>e \<in> set (trace s). loop_stopped_event l e) \<longrightarrow>
           l < length (loops s) \<and> l_pc (loops s ! l) = Finished) \<and>
      (\<forall>l. no_open_after_stopped l False (trace s)))"

text \<open>
  \<open>all_registered ls m\<close>: every accept loop of \<open>ls\<close> that has not yet run the deletion of
  lines 216-218 has its listener in the registry \<open>m\<close>, under its key.
\<close>

definition all_registered :: "accept_loop list \<Rightarrow> (string \<rightharpoonup> Listener) \<Rightarrow> bool" where
  "all_registered ls m =
     (\<forall>l < length ls. l_pc (ls ! l) \<in> {Accepting, Waiting, Deleting} \<longrightarrow>
        m (l_addrstr (ls ! l)) = Some (l_ln (ls ! l)))"

text \<open>
  No key has been registered twice: the accept loops, which stay in the state once they
  are started, have pairwise different keys.
\<close>

definition keys_once :: "system \<Rightarrow> bool" where
  "keys_once s = distinct (map l_addrstr (loops s))"

subsection \<open>Well-formed addresses\<close>

text \<open>
  The address of a TCP socket as the library prints it: a port in the 16-bit range, and
  no bracket in the printed host or in the zone.
\<close>

definition well_formed_TCPAddr :: "TCPAddr \<Rightarrow> bool" where
  "well_formed_TCPAddr a =
     (0 \<le> Port a \<and> Port a < 65536 \<and>
      CHR ''['' \<notin> set (IP a) \<and> CHR '']'' \<notin> set (IP a) \<and>
      CHR ''['' \<notin> set (Zone a) \<and> CHR '']'' \<notin> set (Zone a))"

subsection \<open>Example inputs\<close>

text \<open>Concrete values at which the theorems below are instantiated.\<close>

definition example_addr :: TCPAddr where
  "example_addr = \<lparr>IP = ''127.0.0.1'', Port = 0, Zone = []\<rparr>"

definition example_bound :: TCPAddr where
  "example_bound = \<lparr>IP = ''127.0.0.1'', Port = 43210, Zone = []\<rparr>"

definition example_listener :: Listener where
  "example_listener = Listener 1 (TCP example_bound)"

definition example_env :: Env where
  "example_env =
     \<lparr>Error_wire = (\<lambda>e. case e of errShortRead \<Rightarrow> ''short read'' | parseError \<Rightarrow> ''parse error''),
      ResolveTCPAddr = (\<lambda>s. Inr example_addr),
      ListenTCP = (\<lambda>a. Inr example_listener),
      DialContext = (\<lambda>ctx dest. Inl \<lparr>Error = ''connection refused'', is_ErrClosed = False\<rparr>),
      Accept_newChan = Inr 7,
      conn_RemoteAddr = ''198.51.100.4:50022''\<rparr>"

definition allow_all :: Server where
  "allow_all =
     \<lparr>LocalPortForwardingCallback = Some (\<lambda>ctx host port. True),
      ReversePortForwardingCallback = Some (\<lambda>ctx a b sig ln c. True)\<rparr>"

definition deny_all :: Server where
  "deny_all =
     \<lparr>LocalPortForwardingCallback = Some (\<lambda>ctx host port. False),
      ReversePortForwardingCallback = Some (\<lambda>ctx a b sig ln c. False)\<rparr>"

definition no_callbacks :: Server where
  "no_callbacks = \<lparr>LocalPortForwardingCallback = None, ReversePortForwardingCallback = None\<rparr>"

definition example_open :: localForwardChannelData where
  "example_open =
     \<lparr>DestAddr = ''example.org'', DestPort = 443, OriginAddr = ''10.0.0.7'', OriginPort = 50000\<rparr>"

definition example_forward :: Request where
  "example_forward =
     \<lparr>Type = ''tcpip-forward'',
      Payload = Marshal_remoteForwardRequest \<lparr>BindAddr = ''localhost'', BindPort = 0\<rparr>\<rparr>"

definition example_cancel :: Request where
  "example_cancel =
     \<lparr>Type = ''cancel-tcpip-forward'',
      Payload = Marshal_remoteForwardCancelRequest
        \<lparr>BindAddr_cancel = ''localhost'', BindPort_cancel = 0\<rparr>\<rparr>"

definition example_conn :: Conn where
  "example_conn = Conn 3 (OtherAddr ''@'') (TCP \<lparr>IP = ''203.0.113.9'', Port = 40000, Zone = []\<rparr>)"

definition example_env2 :: Env where
  "example_env2 = example_env\<lparr>ListenTCP :=
      (\<lambda>a. Inr (Listener 2 (TCP \<lparr>IP = ''127.0.0.1'', Port = 43211, Zone = []\<rparr>)))\<rparr>"

definition closed_error :: error where
  "closed_error = \<lparr>Error = ''use of closed network connection'', is_ErrClosed = True\<rparr>"

definition example_tcp_conn :: Conn where
  "example_tcp_conn =
     Conn 4 (TCP example_bound) (TCP \<lparr>IP = ''203.0.113.9'', Port = 40000, Zone = []\<rparr>)"

text \<open>The calls of the reverse-forwarding callback in a trace: who calls, and the signal.\<close>

fun callback_of :: "origin \<times> event \<Rightarrow> (origin \<times> int) list" where
  "callback_of (who, Call_ReversePortForwardingCallback ctx a b sig ln c) = [(who, sig)]"
| "callback_of e = []"

definition callbacks :: "(origin \<times> event) list \<Rightarrow> (origin \<times> int) list" where
  "callbacks tr = concat (map callback_of tr)"

text \<open>A forward from the request to the end of its accept loop, with one connection.\<close>

definition example_lifecycle :: "action list" where
  "example_lifecycle =
     [Call_HandleSSHRequest example_env 0 example_forward,
      Loop_Accept 0 (Inr example_tcp_conn),
      Task_Open 0 (Inr 5),
      Call_HandleSSHRequest example_env 0 example_cancel,
      Loop_Accept 0 (Inl closed_error),
      Task_Return 0,
      Loop_Wait 0,
      Loop_Delete 0,
      Loop_Stopped 0]"

section \<open>Properties\<close>

subsection \<open>Wire encoding\<close>

lemma be32:
  "(n div 2 ^ 24 mod 256) * 2 ^ 24 + (n div 2 ^ 16 mod 256) * 2 ^ 16
     + (n div 2 ^ 8 mod 256) * 2 ^ 8 + n mod 256 = (n::nat) mod 2 ^ 32"
proof -
  have a: "n mod 2 ^ 16 = 2 ^ 8 * (n div 2 ^ 8 mod 2 ^ 8) + n mod 2 ^ 8"
    using mod_mult2_eq [of n "2 ^ 8" "2 ^ 8"] by simp
  have b: "n mod 2 ^ 24 = 2 ^ 16 * (n div 2 ^ 16 mod 2 ^ 8) + n mod 2 ^ 16"
    using mod_mult2_eq [of n "2 ^ 16" "2 ^ 8"] by simp
  have c: "n mod 2 ^ 32 = 2 ^ 24 * (n div 2 ^ 24 mod 2 ^ 8) + n mod 2 ^ 24"
    using mod_mult2_eq [of n "2 ^ 24" "2 ^ 8"] by simp
  show ?thesis using a b c by simp
qed

lemma parseUint32_appendU32: "parseUint32 (appendU32 [] n @ rest) = Some (n, rest)"
proof -
  have m: "unat n mod 2 ^ 32 = unat n"
    using unsigned_less [of n, where 'a = nat] by simp
  have s: "(of_char (char_of (unat n div 2 ^ 24)) * 2 ^ 24
            + of_char (char_of (unat n div 2 ^ 16)) * 2 ^ 16
            + of_char (char_of (unat n div 2 ^ 8)) * 2 ^ 8
            + of_char (char_of (unat n)) :: nat) = unat n"
    using be32 [of "unat n"] m by (simp add: of_char_of)
  have w: "(of_nat (unat n) :: u32) = n"
    by simp
  show ?thesis
    unfolding parseUint32_def appendU32_def
    by (simp only: append_Nil append_Cons list.case s w)
qed

lemma appendU32_buf: "appendU32 buf n = buf @ appendU32 [] n"
  by (simp add: appendU32_def)

lemma appendString_buf: "appendString buf s = buf @ appendString [] s"
  by (simp add: appendString_def appendU32_def)

lemma appendU32_not_Nil: "appendU32 buf n \<noteq> []"
  by (simp add: appendU32_def)

lemma parseString_appendString:
  assumes "wire_string s"
  shows "parseString (appendString [] s @ rest) = Some (s, rest)"
proof -
  have "unat (of_nat (length s) :: u32) = length s"
    using assms by (simp add: wire_string_def unat_of_nat)
  then show ?thesis
    by (simp add: parseString_def appendString_def parseUint32_appendU32)
qed

lemma parse_string_u32_roundtrip:
  assumes "wire_string s"
  shows "parse_string_u32 (appendU32 (appendString [] s) n) = Inr (s, n)"
proof -
  have e: "appendU32 (appendString [] s) n = appendString [] s @ (appendU32 [] n @ [])"
    using appendU32_buf [of "appendString [] s" n] by simp
  have p2: "parseUint32 (appendU32 [] n @ []) = Some (n, [])"
    by (rule parseUint32_appendU32)
  show ?thesis
    unfolding parse_string_u32_def e
    using parseString_appendString [OF assms, of "appendU32 [] n @ []"] p2
      appendU32_not_Nil [of "[]" "of_nat (length s)"]
    by (simp add: appendString_def)
qed

lemma parse_string_u32_string_u32_roundtrip:
  assumes "wire_string s1" and "wire_string s2"
  shows "parse_string_u32_string_u32
           (appendU32 (appendString (appendU32 (appendString [] s1) n1) s2) n2)
         = Inr (s1, n1, s2, n2)"
proof -
  let ?t3 = "appendU32 [] n2 @ []"
  let ?t2 = "appendString [] s2 @ ?t3"
  let ?t1 = "appendU32 [] n1 @ ?t2"
  have e: "appendU32 (appendString (appendU32 (appendString [] s1) n1) s2) n2
           = appendString [] s1 @ ?t1"
    using appendU32_buf [of "appendString (appendU32 (appendString [] s1) n1) s2" n2]
      appendString_buf [of "appendU32 (appendString [] s1) n1" s2]
      appendU32_buf [of "appendString [] s1" n1]
    by simp
  have p1: "parseString (appendString [] s1 @ ?t1) = Some (s1, ?t1)"
    by (rule parseString_appendString [OF assms(1)])
  have p2: "parseUint32 ?t1 = Some (n1, ?t2)"
    by (rule parseUint32_appendU32)
  have p3: "parseString ?t2 = Some (s2, ?t3)"
    by (rule parseString_appendString [OF assms(2)])
  have p4: "parseUint32 ?t3 = Some (n2, [])"
    by (rule parseUint32_appendU32)
  have ne: "appendString [] s1 @ ?t1 \<noteq> []"
    by (simp add: appendString_def appendU32_def)
  show ?thesis
    unfolding parse_string_u32_string_u32_def e
    by (simp only: ne p1 p2 p3 p4 if_False option.case prod.case not_not refl if_True simp_thms)
qed

text \<open>
  Claim C8. Round trip of the wire encoding: for each of the five payload structs,
  marshalling a value and then unmarshalling the bytes gives back the same value, field
  for field. The string fields are those the wire format can carry, that is, shorter
  than \<open>2 ^ 32\<close> bytes (the length prefix is a \<^verbatim>\<open>uint32\<close>).
\<close>

theorem marshal_unmarshal_roundtrip:
  "(wire_string (DestAddr l) \<and> wire_string (OriginAddr l) \<longrightarrow>
      Unmarshal_localForwardChannelData (Marshal_localForwardChannelData l) = Inr l) \<and>
   (wire_string (BindAddr r) \<longrightarrow>
      Unmarshal_remoteForwardRequest (Marshal_remoteForwardRequest r) = Inr r) \<and>
   Unmarshal_remoteForwardSuccess (Marshal_remoteForwardSuccess s) = Inr s \<and>
   (wire_string (BindAddr_cancel c) \<longrightarrow>
      Unmarshal_remoteForwardCancelRequest (Marshal_remoteForwardCancelRequest c) = Inr c) \<and>
   (wire_string (DestAddr_remote d) \<and> wire_string (OriginAddr_remote d) \<longrightarrow>
      Unmarshal_remoteForwardChannelData (Marshal_remoteForwardChannelData d) = Inr d)"
proof (intro conjI impI)
  assume "wire_string (DestAddr l) \<and> wire_string (OriginAddr l)"
  then show "Unmarshal_localForwardChannelData (Marshal_localForwardChannelData l) = Inr l"
    by (simp add: Unmarshal_localForwardChannelData_def Marshal_localForwardChannelData_def
        parse_string_u32_string_u32_roundtrip)
next
  assume "wire_string (BindAddr r)"
  then show "Unmarshal_remoteForwardRequest (Marshal_remoteForwardRequest r) = Inr r"
    by (simp add: Unmarshal_remoteForwardRequest_def Marshal_remoteForwardRequest_def
        parse_string_u32_roundtrip)
next
  have "parseUint32 (appendU32 [] (BindPort_success s) @ []) = Some (BindPort_success s, [])"
    by (rule parseUint32_appendU32)
  then show "Unmarshal_remoteForwardSuccess (Marshal_remoteForwardSuccess s) = Inr s"
    by (simp add: Unmarshal_remoteForwardSuccess_def Marshal_remoteForwardSuccess_def
        appendU32_not_Nil)
next
  assume "wire_string (BindAddr_cancel c)"
  then show "Unmarshal_remoteForwardCancelRequest (Marshal_remoteForwardCancelRequest c) = Inr c"
    by (simp add: Unmarshal_remoteForwardCancelRequest_def
        Marshal_remoteForwardCancelRequest_def parse_string_u32_roundtrip)
next
  assume "wire_string (DestAddr_remote d) \<and> wire_string (OriginAddr_remote d)"
  then show "Unmarshal_remoteForwardChannelData (Marshal_remoteForwardChannelData d) = Inr d"
    by (simp add: Unmarshal_remoteForwardChannelData_def Marshal_remoteForwardChannelData_def
        parse_string_u32_string_u32_roundtrip)
qed

theorem marshal_unmarshal_roundtrip_witness:
  "wire_string ''example.org'' \<and> wire_string ''10.0.0.7'' \<and>
   Unmarshal_localForwardChannelData (Marshal_localForwardChannelData
      \<lparr>DestAddr = ''example.org'', DestPort = 443, OriginAddr = ''10.0.0.7'', OriginPort = 50000\<rparr>)
     = Inr \<lparr>DestAddr = ''example.org'', DestPort = 443, OriginAddr = ''10.0.0.7'', OriginPort = 50000\<rparr> \<and>
   Unmarshal_remoteForwardRequest (Marshal_remoteForwardRequest
      \<lparr>BindAddr = ''10.0.0.7'', BindPort = 0\<rparr>)
     = Inr \<lparr>BindAddr = ''10.0.0.7'', BindPort = 0\<rparr> \<and>
   Unmarshal_remoteForwardCancelRequest (Marshal_remoteForwardCancelRequest
      \<lparr>BindAddr_cancel = ''10.0.0.7'', BindPort_cancel = 8080\<rparr>)
     = Inr \<lparr>BindAddr_cancel = ''10.0.0.7'', BindPort_cancel = 8080\<rparr> \<and>
   Unmarshal_remoteForwardChannelData (Marshal_remoteForwardChannelData
      \<lparr>DestAddr_remote = ''example.org'', DestPort_remote = 8080,
       OriginAddr_remote = ''10.0.0.7'', OriginPort_remote = 50000\<rparr>)
     = Inr \<lparr>DestAddr_remote = ''example.org'', DestPort_remote = 8080,
            OriginAddr_remote = ''10.0.0.7'', OriginPort_remote = 50000\<rparr>"
  using marshal_unmarshal_roundtrip
    [of "\<lparr>DestAddr = ''example.org'', DestPort = 443, OriginAddr = ''10.0.0.7'', OriginPort = 50000\<rparr>"
        "\<lparr>BindAddr = ''10.0.0.7'', BindPort = 0\<rparr>"
        "\<lparr>BindPort_success = 0\<rparr>"
        "\<lparr>BindAddr_cancel = ''10.0.0.7'', BindPort_cancel = 8080\<rparr>"
        "\<lparr>DestAddr_remote = ''example.org'', DestPort_remote = 8080,
          OriginAddr_remote = ''10.0.0.7'', OriginPort_remote = 50000\<rparr>"]
  by (simp add: wire_string_def)

lemma Unmarshal_Marshal_localForwardChannelData:
  "wire_string (DestAddr l) \<Longrightarrow> wire_string (OriginAddr l) \<Longrightarrow>
   Unmarshal_localForwardChannelData (Marshal_localForwardChannelData l) = Inr l"
  by (simp add: Unmarshal_localForwardChannelData_def Marshal_localForwardChannelData_def
      parse_string_u32_string_u32_roundtrip)

lemma Unmarshal_Marshal_remoteForwardRequest:
  "wire_string (BindAddr r) \<Longrightarrow>
   Unmarshal_remoteForwardRequest (Marshal_remoteForwardRequest r) = Inr r"
  by (simp add: Unmarshal_remoteForwardRequest_def Marshal_remoteForwardRequest_def
      parse_string_u32_roundtrip)

lemma Unmarshal_Marshal_remoteForwardCancelRequest:
  "wire_string (BindAddr_cancel c) \<Longrightarrow>
   Unmarshal_remoteForwardCancelRequest (Marshal_remoteForwardCancelRequest c) = Inr c"
  by (simp add: Unmarshal_remoteForwardCancelRequest_def
      Marshal_remoteForwardCancelRequest_def parse_string_u32_roundtrip)

lemma Unmarshal_example_open:
  "Unmarshal_localForwardChannelData (Marshal_localForwardChannelData example_open)
   = Inr example_open"
  by (rule Unmarshal_Marshal_localForwardChannelData)
     (simp_all add: example_open_def wire_string_def)

lemma Unmarshal_example_forward:
  "Unmarshal_remoteForwardRequest (Payload example_forward)
   = Inr \<lparr>BindAddr = ''localhost'', BindPort = 0\<rparr>"
  unfolding example_forward_def
  by (simp add: Unmarshal_Marshal_remoteForwardRequest wire_string_def)

lemma Unmarshal_example_cancel:
  "Unmarshal_remoteForwardCancelRequest (Payload example_cancel)
   = Inr \<lparr>BindAddr_cancel = ''localhost'', BindPort_cancel = 0\<rparr>"
  unfolding example_cancel_def
  by (simp add: Unmarshal_Marshal_remoteForwardCancelRequest wire_string_def)

lemma Unmarshal_localForwardChannelData_Nil:
  "Unmarshal_localForwardChannelData [] = Inl parseError"
  by (simp add: Unmarshal_localForwardChannelData_def parse_string_u32_string_u32_def)

subsection \<open>DirectTCPIPHandler\<close>

text \<open>
  Claim C3. When the payload of a direct-tcpip channel-open decodes and the
  local-forwarding callback is nil or returns false for the context, the destination
  host and the destination port, the handler rejects the channel-open with the
  administratively-prohibited code; the only other effect is the call of the callback
  (when there is one), and no dial is attempted.
\<close>

theorem local_forward_denied:
  assumes "Unmarshal_localForwardChannelData extraData = Inr d"
    and "LocalPortForwardingCallback srv = None \<or>
         (\<exists>cb. LocalPortForwardingCallback srv = Some cb \<and> \<not> cb ctx (DestAddr d) (DestPort d))"
  shows "DirectTCPIPHandler env srv extraData ctx =
           (case LocalPortForwardingCallback srv of
              None \<Rightarrow> []
            | Some cb \<Rightarrow> [Call_LocalPortForwardingCallback ctx (DestAddr d) (DestPort d)]) @
           [Reject Prohibited ''port forwarding is disabled'']
         \<and> (\<forall>dest. Dial dest \<notin> set (DirectTCPIPHandler env srv extraData ctx))"
  using assms by (auto simp: DirectTCPIPHandler_def)

theorem local_forward_denied_witness:
  "DirectTCPIPHandler example_env no_callbacks (Marshal_localForwardChannelData example_open) 0
     = [Reject Prohibited ''port forwarding is disabled''] \<and>
   DirectTCPIPHandler example_env deny_all (Marshal_localForwardChannelData example_open) 0
     = [Call_LocalPortForwardingCallback 0 ''example.org'' 443,
        Reject Prohibited ''port forwarding is disabled'']"
  using local_forward_denied
      [OF Unmarshal_example_open, of no_callbacks 0 example_env]
    local_forward_denied
      [OF Unmarshal_example_open, of deny_all 0 example_env]
  by (simp add: no_callbacks_def deny_all_def example_open_def)

text \<open>
  Claim C7, as amended. When the payload of a direct-tcpip channel-open does not decode,
  the handler rejects the channel-open with the connection-failed code (the code it
  also uses when the dial fails) and the message \<open>error parsing forward data: \<close>
  followed by the text of the decoding error; that rejection is its only effect.
\<close>

theorem local_forward_decode_failure:
  assumes "Unmarshal_localForwardChannelData extraData = Inl err"
  shows "DirectTCPIPHandler env srv extraData ctx =
           [Reject ConnectionFailed (''error parsing forward data: '' @ Error_wire env err)]"
  using assms by (simp add: DirectTCPIPHandler_def)

theorem local_forward_decode_failure_witness:
  "Unmarshal_localForwardChannelData [] = Inl parseError \<and>
   DirectTCPIPHandler example_env allow_all [] 0 =
     [Reject ConnectionFailed ''error parsing forward data: parse error'']"
  using local_forward_decode_failure
      [OF Unmarshal_localForwardChannelData_Nil, of example_env allow_all 0]
  by (simp add: Unmarshal_localForwardChannelData_Nil example_env_def)

text \<open>
  The claim as stated asks for a protocol-error code. At the empty payload the code of
  the rejection is \<open>ConnectionFailed\<close>, the same code as in the rejection after a failed
  dial.
\<close>

theorem local_forward_decode_failure_counterexample:
  "DirectTCPIPHandler example_env allow_all [] 0 =
     [Reject ConnectionFailed ''error parsing forward data: parse error''] \<and>
   DirectTCPIPHandler example_env allow_all (Marshal_localForwardChannelData example_open) 0 =
     [Call_LocalPortForwardingCallback 0 ''example.org'' 443,
      Dial (JoinHostPort ''example.org'' (FormatInt 443)),
      Reject ConnectionFailed ''connection refused'']"
proof -
  have "DestAddr example_open = ''example.org''" and "DestPort example_open = 443"
    by (simp_all add: example_open_def)
  then show ?thesis
    by (simp add: DirectTCPIPHandler_def Unmarshal_localForwardChannelData_Nil
        Unmarshal_example_open example_env_def allow_all_def)
qed

subsection \<open>Library functions\<close>

lemma IndexByte_append: "c \<notin> set xs \<Longrightarrow> IndexByte (xs @ c # ys) c = Some (length xs)"
  by (induction xs) auto

lemma LastIndexByte_append:
  "c \<notin> set ys \<Longrightarrow> LastIndexByte (xs @ c # ys) c = Some (length xs)"
  using IndexByte_append [of c "rev ys" "rev xs"]
  by (simp add: LastIndexByte_def)

lemma SplitHostPort_JoinHostPort:
  assumes "CHR ''['' \<notin> set host" and "CHR '']'' \<notin> set host"
    and "CHR '':'' \<notin> set port" and "CHR ''['' \<notin> set port" and "CHR '']'' \<notin> set port"
  shows "SplitHostPort (JoinHostPort host port) = (host, port, None)"
proof (cases "CHR '':'' \<in> set host")
  case True
  let ?hp = "''['' @ host @ '']:'' @ port"
  have j: "JoinHostPort host port = ?hp"
    using True by (simp add: JoinHostPort_def)
  have li: "LastIndexByte ?hp CHR '':'' = Some (length host + 2)"
    using LastIndexByte_append [of "CHR '':''" port "''['' @ host @ '']''"] assms(3) by simp
  have fi: "IndexByte ?hp CHR '']'' = Some (length host + 1)"
    using IndexByte_append [of "CHR '']''" "''['' @ host" "'':'' @ port"] assms(2) by simp
  show ?thesis
    unfolding j SplitHostPort_def Let_def li fi
    using assms by simp
next
  case False
  let ?hp = "host @ '':'' @ port"
  have j: "JoinHostPort host port = ?hp"
    using False by (simp add: JoinHostPort_def)
  have li: "LastIndexByte ?hp CHR '':'' = Some (length host)"
    using LastIndexByte_append [of "CHR '':''" port host] assms(3) by simp
  have t: "take 1 ?hp \<noteq> ''[''"
    using assms(1) by (cases host) auto
  show ?thesis
    unfolding j SplitHostPort_def Let_def li
    using assms False t by simp
qed

lemma digit_val_digit_char: "d < 10 \<Longrightarrow> digit_val (digit_char d) = Some d"
  by (simp add: digit_val_def digit_char_def of_char_of)

lemma parse_digits_snoc:
  "parse_digits acc (xs @ [c]) =
     (case parse_digits acc xs of
        None \<Rightarrow> None
      | Some v \<Rightarrow> (case digit_val c of None \<Rightarrow> None | Some d \<Rightarrow> Some (v * 10 + d)))"
  by (induction xs arbitrary: acc) (auto split: option.splits)

lemma parse_digits_FormatUint: "parse_digits 0 (FormatUint n) = Some n"
proof (induction n rule: FormatUint.induct)
  case (1 n)
  show ?case
  proof (cases "n < 10")
    case True
    then show ?thesis
      by (subst FormatUint.simps) (simp add: digit_val_digit_char)
  next
    case False
    then have "parse_digits 0 (FormatUint (n div 10)) = Some (n div 10)"
      using 1 by simp
    moreover have "digit_val (digit_char (n mod 10)) = Some (n mod 10)"
      by (rule digit_val_digit_char) simp
    ultimately show ?thesis
      using False by (subst FormatUint.simps) (simp add: parse_digits_snoc)
  qed
qed

lemma set_FormatUint: "c \<in> set (FormatUint n) \<Longrightarrow> digit_val c \<noteq> None"
proof (induction n rule: FormatUint.induct)
  case (1 n)
  show ?case
  proof (cases "n < 10")
    case True
    with 1(2) show ?thesis
      by (subst (asm) FormatUint.simps) (simp add: digit_val_digit_char)
  next
    case False
    have "digit_val (digit_char (n mod 10)) = Some (n mod 10)"
      by (rule digit_val_digit_char) simp
    with 1 False show ?thesis
      by (subst (asm) (2) FormatUint.simps) auto
  qed
qed

lemma FormatUint_not_Nil: "FormatUint n \<noteq> []"
  by (subst FormatUint.simps) simp

lemma not_digit:
  "digit_val CHR '':'' = None" "digit_val CHR ''['' = None" "digit_val CHR '']'' = None"
  "digit_val CHR ''-'' = None" "digit_val CHR ''+'' = None"
  by (simp_all add: digit_val_def)

lemma Atoi_Itoa:
  assumes "0 \<le> p" and "p < 2 ^ 63"
  shows "Atoi (Itoa p) = (p, None)"
proof -
  obtain c cs where s: "FormatUint (nat p) = c # cs"
    using FormatUint_not_Nil [of "nat p"] by (cases "FormatUint (nat p)") auto
  have "digit_val c \<noteq> None"
    using set_FormatUint [of c "nat p"] s by simp
  then have c: "c \<noteq> CHR ''-''" "c \<noteq> CHR ''+''"
    using not_digit by auto
  have n: "nat p < 2 ^ 63"
    using assms by (simp add: nat_less_iff)
  have "parse_digits 0 (c # cs) = Some (nat p)"
    using parse_digits_FormatUint [of "nat p"] s by simp
  then show ?thesis
    using assms c n s by (simp add: Atoi_def Itoa_def FormatInt_def)
qed


lemma Itoa_chars:
  assumes "0 \<le> p"
  shows "CHR '':'' \<notin> set (Itoa p)" "CHR ''['' \<notin> set (Itoa p)" "CHR '']'' \<notin> set (Itoa p)"
proof -
  have d: "digit_val c \<noteq> None" if "c \<in> set (Itoa p)" for c
    using that assms set_FormatUint [of c "nat p"] by (simp add: Itoa_def FormatInt_def)
  show "CHR '':'' \<notin> set (Itoa p)" using d [of "CHR '':''"] not_digit(1) by blast
  show "CHR ''['' \<notin> set (Itoa p)" using d [of "CHR ''[''"] not_digit(2) by blast
  show "CHR '']'' \<notin> set (Itoa p)" using d [of "CHR '']''"] not_digit(3) by blast
qed

lemma listener_port_TCP:
  assumes "ln_Addr ln = TCP a" and "well_formed_TCPAddr a"
  shows "listener_port ln = Port a"
proof -
  have p: "0 \<le> Port a" "Port a < 2 ^ 63"
    using assms(2) by (simp_all add: well_formed_TCPAddr_def)
  obtain host where s: "TCPAddr_String a = JoinHostPort host (Itoa (Port a))"
    and h: "CHR ''['' \<notin> set host" "CHR '']'' \<notin> set host"
    using assms(2) by (cases "Zone a = []") (auto simp: TCPAddr_String_def well_formed_TCPAddr_def)
  have "SplitHostPort (TCPAddr_String a) = (host, Itoa (Port a), None)"
    unfolding s using h Itoa_chars [OF p(1)] by (rule SplitHostPort_JoinHostPort)
  then show ?thesis
    using assms(1) Atoi_Itoa [OF p] by (simp add: listener_port_def)
qed

subsection \<open>HandleSSHRequest\<close>

lemma entries_init_forwards: "entries (fst (init_forwards h)) = entries h"
  by (simp add: init_forwards_def entries_def split: option.split)

lemma tcpip_forward_success:
  assumes "Unmarshal_remoteForwardRequest (Payload req) = Inr p"
    and "ReversePortForwardingCallback srv = Some cb"
    and "ResolveTCPAddr env (JoinHostPort (BindAddr p) (Itoa (uint (BindPort p)))) = Inr addr"
    and "cb ctx (Some addr) None 0 None None"
    and "ListenTCP env addr = Inr ln"
  shows "tcpip_forward env h ctx srv req =
     (Reply True (Some (Marshal_remoteForwardSuccess
         \<lparr>BindPort_success = word_of_int (listener_port ln)\<rparr>)),
      h\<lparr>forwards := Some ((entries h)(JoinHostPort (BindAddr p) (Itoa (uint (BindPort p))) \<mapsto> ln))\<rparr>,
      [Call_ReversePortForwardingCallback ctx (Some addr) None 0 None None,
       Listen addr,
       logMsg ''port forward started on %s for %s'' [TCPAddr_String addr, conn_RemoteAddr env],
       Call_ReversePortForwardingCallback ctx (Some addr) None 1 (Some ln) None,
       Lock, forwards_store (JoinHostPort (BindAddr p) (Itoa (uint (BindPort p)))) ln, Unlock,
       Go (CtxWatcher ctx (JoinHostPort (BindAddr p) (Itoa (uint (BindPort p))))),
       Go (AcceptLoop ctx ln addr (JoinHostPort (BindAddr p) (Itoa (uint (BindPort p))))
             (BindAddr p) (listener_port ln) (conn_RemoteAddr env))])"
  using assms by (simp add: tcpip_forward_def Let_def)

lemma cancel_tcpip_forward_resolved:
  assumes "Unmarshal_remoteForwardCancelRequest (Payload req) = Inr q"
    and "ResolveTCPAddr env (JoinHostPort (BindAddr_cancel q) (Itoa (uint (BindPort_cancel q))))
         = Inr addr"
  shows "cancel_tcpip_forward env h ctx srv req =
     (case ReversePortForwardingCallback srv of
        None \<Rightarrow>
          (Panic, h,
           [Lock, forwards_load (JoinHostPort (BindAddr_cancel q) (Itoa (uint (BindPort_cancel q)))),
            Unlock])
      | Some cb \<Rightarrow>
          (Reply True None, h,
           [Lock, forwards_load (JoinHostPort (BindAddr_cancel q) (Itoa (uint (BindPort_cancel q)))),
            Unlock,
            Call_ReversePortForwardingCallback ctx (Some addr) None (- 1) None None] @
           (case entries h (JoinHostPort (BindAddr_cancel q) (Itoa (uint (BindPort_cancel q)))) of
              None \<Rightarrow> []
            | Some ln \<Rightarrow>
                [logMsg ''port forward cancelled on %s for %s''
                   [JoinHostPort (BindAddr_cancel q) (Itoa (uint (BindPort_cancel q))),
                    conn_RemoteAddr env],
                 Close_Listener ln])))"
  using assms by (simp add: cancel_tcpip_forward_def Let_def)

lemma HandleSSHRequest_forward:
  assumes "Type req = ''tcpip-forward''"
  shows "HandleSSHRequest env h ctx srv req =
     (fst (tcpip_forward env (fst (init_forwards h)) ctx srv req),
      fst (snd (tcpip_forward env (fst (init_forwards h)) ctx srv req)),
      snd (init_forwards h) @ snd (snd (tcpip_forward env (fst (init_forwards h)) ctx srv req)))"
  using assms by (simp add: HandleSSHRequest_def split_def Let_def)

lemma HandleSSHRequest_cancel:
  assumes "Type req = ''cancel-tcpip-forward''"
  shows "HandleSSHRequest env h ctx srv req =
     (fst (cancel_tcpip_forward env (fst (init_forwards h)) ctx srv req),
      fst (snd (cancel_tcpip_forward env (fst (init_forwards h)) ctx srv req)),
      snd (init_forwards h) @
      snd (snd (cancel_tcpip_forward env (fst (init_forwards h)) ctx srv req)))"
  using assms by (simp add: HandleSSHRequest_def split_def Let_def)

text \<open>
  Claim C1. A tcpip-forward request that decodes, finds the callback set, resolves, is
  allowed by the callback and gets its listener is answered with \<open>true\<close> and the
  marshalled \<open>remoteForwardSuccess\<close> whose port is the one read from the listener's
  address (lines 133-134): for a listener with a TCP address, the port of that address,
  whatever port the request named.
\<close>

theorem tcpip_forward_success_reply:
  assumes "Type req = ''tcpip-forward''"
    and "Unmarshal_remoteForwardRequest (Payload req) = Inr p"
    and "ReversePortForwardingCallback srv = Some cb"
    and "ResolveTCPAddr env (JoinHostPort (BindAddr p) (Itoa (uint (BindPort p)))) = Inr addr"
    and "cb ctx (Some addr) None 0 None None"
    and "ListenTCP env addr = Inr ln"
  shows "fst (HandleSSHRequest env h ctx srv req) =
           Reply True (Some (Marshal_remoteForwardSuccess
             \<lparr>BindPort_success = word_of_int (listener_port ln)\<rparr>))
         \<and> (\<forall>a. ln_Addr ln = TCP a \<and> well_formed_TCPAddr a \<longrightarrow> listener_port ln = Port a)"
  using tcpip_forward_success [OF assms(2-6)] listener_port_TCP
  by (simp add: HandleSSHRequest_forward [OF assms(1)])

theorem tcpip_forward_success_reply_witness:
  "BindPort \<lparr>BindAddr = ''localhost'', BindPort = 0\<rparr> = 0 \<and>
   fst (HandleSSHRequest example_env \<lparr>forwards = None\<rparr> 0 allow_all example_forward) =
     Reply True (Some (Marshal_remoteForwardSuccess \<lparr>BindPort_success = 43210\<rparr>))"
proof -
  have t: "Type example_forward = ''tcpip-forward''"
    by (simp add: example_forward_def)
  have c: "ReversePortForwardingCallback allow_all = Some (\<lambda>ctx a b sig ln c. True)"
    by (simp add: allow_all_def)
  have r: "ResolveTCPAddr example_env
             (JoinHostPort (BindAddr \<lparr>BindAddr = ''localhost'', BindPort = 0\<rparr>)
                (Itoa (uint (BindPort \<lparr>BindAddr = ''localhost'', BindPort = 0\<rparr>))))
           = Inr example_addr"
    by (simp add: example_env_def)
  have l: "ListenTCP example_env example_addr = Inr example_listener"
    by (simp add: example_env_def)
  have w: "ln_Addr example_listener = TCP example_bound \<and> well_formed_TCPAddr example_bound"
    by (simp add: example_listener_def example_bound_def well_formed_TCPAddr_def)
  have "Port example_bound = 43210"
    by (simp add: example_bound_def)
  with tcpip_forward_success_reply [where ctx = 0 and h = "\<lparr>forwards = None\<rparr>",
      OF t Unmarshal_example_forward c r _ l] w
  show ?thesis by simp
qed

lemma digit_char_numerals:
  "digit_char 0 = CHR ''0''" "digit_char 1 = CHR ''1''" "digit_char 2 = CHR ''2''"
  "digit_char 3 = CHR ''3''" "digit_char 4 = CHR ''4''" "digit_char 5 = CHR ''5''"
  "digit_char 6 = CHR ''6''" "digit_char 7 = CHR ''7''" "digit_char 8 = CHR ''8''"
  "digit_char 9 = CHR ''9''"
  unfolding digit_char_def by code_simp+

lemma key_localhost_0: "JoinHostPort ''localhost'' (Itoa 0) = ''localhost:0''"
  by (simp add: JoinHostPort_def Itoa_def FormatInt_def FormatUint.simps digit_char_numerals)

lemma example_cancel_facts:
  "Type example_cancel = ''cancel-tcpip-forward''"
  "ResolveTCPAddr example_env
     (JoinHostPort (BindAddr_cancel \<lparr>BindAddr_cancel = ''localhost'', BindPort_cancel = 0\<rparr>)
        (Itoa (uint (BindPort_cancel \<lparr>BindAddr_cancel = ''localhost'', BindPort_cancel = 0\<rparr>))))
   = Inr example_addr"
  by (simp_all add: example_cancel_def example_env_def)

lemma example_forward_facts:
  "Type example_forward = ''tcpip-forward''"
  "ResolveTCPAddr example_env
     (JoinHostPort (BindAddr \<lparr>BindAddr = ''localhost'', BindPort = 0\<rparr>)
        (Itoa (uint (BindPort \<lparr>BindAddr = ''localhost'', BindPort = 0\<rparr>))))
   = Inr example_addr"
  "ListenTCP example_env example_addr = Inr example_listener"
  by (simp_all add: example_forward_def example_env_def)

lemma allow_all_reverse:
  "ReversePortForwardingCallback allow_all = Some (\<lambda>ctx a b sig ln c. True)"
  by (simp add: allow_all_def)

text \<open>
  The cancel branch on a server whose reverse-forwarding callback is set. A
  cancel-tcpip-forward request that decodes and whose bind address resolves: the callback
  is called in stopped mode (signal \<open>-1\<close>) with the resolved address whether or not the
  registry has an entry for the key, the listener is closed exactly when an entry was
  found, and the reply is \<open>true\<close> with a nil payload in both cases.
\<close>

theorem cancel_forward_reply:
  assumes "Type req = ''cancel-tcpip-forward''"
    and "Unmarshal_remoteForwardCancelRequest (Payload req) = Inr q"
    and "ResolveTCPAddr env (JoinHostPort (BindAddr_cancel q) (Itoa (uint (BindPort_cancel q))))
         = Inr addr"
    and "ReversePortForwardingCallback srv = Some cb"
  shows "fst (HandleSSHRequest env h ctx srv req) = Reply True None
    \<and> snd (snd (HandleSSHRequest env h ctx srv req)) =
        snd (init_forwards h) @
        [Lock, forwards_load (JoinHostPort (BindAddr_cancel q) (Itoa (uint (BindPort_cancel q)))),
         Unlock,
         Call_ReversePortForwardingCallback ctx (Some addr) None (- 1) None None] @
        (case entries h (JoinHostPort (BindAddr_cancel q) (Itoa (uint (BindPort_cancel q)))) of
           None \<Rightarrow> []
         | Some ln \<Rightarrow>
             [logMsg ''port forward cancelled on %s for %s''
                [JoinHostPort (BindAddr_cancel q) (Itoa (uint (BindPort_cancel q))),
                 conn_RemoteAddr env],
              Close_Listener ln])"
  using cancel_tcpip_forward_resolved [OF assms(2,3), of "fst (init_forwards h)" ctx srv] assms(4)
  by (simp add: HandleSSHRequest_cancel [OF assms(1)] entries_init_forwards)

theorem cancel_forward_reply_witness:
  "HandleSSHRequest example_env \<lparr>forwards = Some Map.empty\<rparr> 0 allow_all example_cancel =
     (Reply True None, \<lparr>forwards = Some Map.empty\<rparr>,
      [Lock, Unlock, Lock, forwards_load ''localhost:0'', Unlock,
       Call_ReversePortForwardingCallback 0 (Some example_addr) None (- 1) None None]) \<and>
   HandleSSHRequest example_env \<lparr>forwards = Some [''localhost:0'' \<mapsto> example_listener]\<rparr> 0
       allow_all example_cancel =
     (Reply True None, \<lparr>forwards = Some [''localhost:0'' \<mapsto> example_listener]\<rparr>,
      [Lock, Unlock, Lock, forwards_load ''localhost:0'', Unlock,
       Call_ReversePortForwardingCallback 0 (Some example_addr) None (- 1) None None,
       logMsg ''port forward cancelled on %s for %s'' [''localhost:0'', ''198.51.100.4:50022''],
       Close_Listener example_listener])"
proof -
  note a = cancel_forward_reply [where ctx = 0 and env = example_env and srv = allow_all,
      OF example_cancel_facts(1) Unmarshal_example_cancel example_cancel_facts(2) allow_all_reverse]
  have e: "conn_RemoteAddr example_env = ''198.51.100.4:50022''"
    by (simp add: example_env_def)
  have h: "fst (snd (HandleSSHRequest example_env hh 0 allow_all example_cancel)) = hh"
    if "forwards hh \<noteq> None" for hh
    using that cancel_tcpip_forward_resolved [OF Unmarshal_example_cancel example_cancel_facts(2)]
    by (auto simp: HandleSSHRequest_cancel [OF example_cancel_facts(1)] init_forwards_def
        allow_all_reverse split: option.splits)
  show ?thesis
    using a [of "\<lparr>forwards = Some Map.empty\<rparr>"]
      a [of "\<lparr>forwards = Some [''localhost:0'' \<mapsto> example_listener]\<rparr>"]
      h [of "\<lparr>forwards = Some Map.empty\<rparr>"]
      h [of "\<lparr>forwards = Some [''localhost:0'' \<mapsto> example_listener]\<rparr>"]
    by (simp add: prod_eq_iff init_forwards_def entries_def key_localhost_0 e)
qed

text \<open>
  Claim C4. A cancel-tcpip-forward request that decodes and whose bind address resolves
  is to have the callback called in stopped mode and the reply \<open>true\<close> with a nil payload,
  whether or not the registry has an entry. The code does so only when the callback is
  set, as shown above. Line 239 calls the callback without the nil check that the
  tcpip-forward branch makes at lines 111-113: on a server with no reverse-forwarding
  callback, the request below, whose key has an entry in the registry, ends in the call
  of a nil function value after the lookup. No callback is called, no
  reply is produced, and the listener found is not closed.
\<close>

theorem cancel_forward_nil_callback:
  "HandleSSHRequest example_env \<lparr>forwards = Some [''localhost:0'' \<mapsto> example_listener]\<rparr> 0
     no_callbacks example_cancel =
   (Panic, \<lparr>forwards = Some [''localhost:0'' \<mapsto> example_listener]\<rparr>,
    [Lock, Unlock, Lock, forwards_load ''localhost:0'', Unlock])"
proof -
  have i: "init_forwards \<lparr>forwards = Some [''localhost:0'' \<mapsto> example_listener]\<rparr> =
           (\<lparr>forwards = Some [''localhost:0'' \<mapsto> example_listener]\<rparr>, [Lock, Unlock])"
    by (simp add: init_forwards_def)
  have n: "ReversePortForwardingCallback no_callbacks = None"
    by (simp add: no_callbacks_def)
  show ?thesis
    using cancel_tcpip_forward_resolved [OF Unmarshal_example_cancel example_cancel_facts(2),
        of "\<lparr>forwards = Some [''localhost:0'' \<mapsto> example_listener]\<rparr>" 0 no_callbacks]
    by (simp add: HandleSSHRequest_cancel [OF example_cancel_facts(1)] i n key_localhost_0)
qed

text \<open>
  Claim C10. The cancel branch calls the reverse-forwarding callback without a nil
  check: a cancel-tcpip-forward request that decodes and resolves, on a server with no
  reverse-forwarding callback, ends in the call of a nil function value (a panic), where
  the tcpip-forward branch answers not-handled with \<open>port forwarding is disabled\<close>.
\<close>

theorem cancel_without_callback_panics:
  "(Type req = ''cancel-tcpip-forward'' \<and>
    Unmarshal_remoteForwardCancelRequest (Payload req) = Inr q \<and>
    ResolveTCPAddr env (JoinHostPort (BindAddr_cancel q) (Itoa (uint (BindPort_cancel q))))
      = Inr addr \<and>
    ReversePortForwardingCallback srv = None
    \<longrightarrow> fst (HandleSSHRequest env h ctx srv req) = Panic) \<and>
   (Type req' = ''tcpip-forward'' \<and>
    Unmarshal_remoteForwardRequest (Payload req') = Inr p \<and>
    ReversePortForwardingCallback srv = None
    \<longrightarrow> fst (HandleSSHRequest env h ctx srv req') =
        Reply False (Some ''port forwarding is disabled''))"
proof (intro conjI impI)
  assume a: "Type req = ''cancel-tcpip-forward'' \<and>
    Unmarshal_remoteForwardCancelRequest (Payload req) = Inr q \<and>
    ResolveTCPAddr env (JoinHostPort (BindAddr_cancel q) (Itoa (uint (BindPort_cancel q))))
      = Inr addr \<and>
    ReversePortForwardingCallback srv = None"
  then have "cancel_tcpip_forward env (fst (init_forwards h)) ctx srv req =
      (Panic, fst (init_forwards h),
       [Lock, forwards_load (JoinHostPort (BindAddr_cancel q) (Itoa (uint (BindPort_cancel q)))),
        Unlock])"
    using cancel_tcpip_forward_resolved [of req q env addr "fst (init_forwards h)" ctx srv]
    by simp
  with a show "fst (HandleSSHRequest env h ctx srv req) = Panic"
    by (simp add: HandleSSHRequest_cancel)
next
  assume "Type req' = ''tcpip-forward'' \<and>
    Unmarshal_remoteForwardRequest (Payload req') = Inr p \<and>
    ReversePortForwardingCallback srv = None"
  then show "fst (HandleSSHRequest env h ctx srv req') =
      Reply False (Some ''port forwarding is disabled'')"
    by (simp add: HandleSSHRequest_forward tcpip_forward_def)
qed

theorem cancel_without_callback_panics_witness:
  "fst (HandleSSHRequest example_env \<lparr>forwards = None\<rparr> 0 no_callbacks example_cancel) = Panic \<and>
   fst (HandleSSHRequest example_env \<lparr>forwards = None\<rparr> 0 no_callbacks example_forward) =
     Reply False (Some ''port forwarding is disabled'')"
  using cancel_without_callback_panics
    [of example_cancel "\<lparr>BindAddr_cancel = ''localhost'', BindPort_cancel = 0\<rparr>" example_env
        example_addr no_callbacks "\<lparr>forwards = None\<rparr>" 0 example_forward
        "\<lparr>BindAddr = ''localhost'', BindPort = 0\<rparr>"]
    Unmarshal_example_cancel Unmarshal_example_forward
    example_cancel_facts example_forward_facts(1)
  by (simp add: no_callbacks_def)

text \<open>
  Claim C6. A successful tcpip-forward records its listener under the string
  \<^verbatim>\<open>JoinHostPort(BindAddr, Itoa(BindPort))\<close> built from the fields of the request (the
  only store into the registry, whatever the resolved address and the listener's own
  address are), and cancel-tcpip-forward looks the registry up under the string built
  the same way from the fields of its own request, and under no other. What the lookup
  finds decides what the request does: on a server whose callback is set, a listener is
  closed exactly when it is the registry's entry for that string.
\<close>

theorem registry_key_from_request:
  "(Type req = ''tcpip-forward'' \<and>
    Unmarshal_remoteForwardRequest (Payload req) = Inr p \<and>
    ReversePortForwardingCallback srv = Some cb \<and>
    ResolveTCPAddr env (JoinHostPort (BindAddr p) (Itoa (uint (BindPort p)))) = Inr addr \<and>
    cb ctx (Some addr) None 0 None None \<and>
    ListenTCP env addr = Inr ln
    \<longrightarrow> entries (fst (snd (HandleSSHRequest env h ctx srv req))) =
          (entries h)(JoinHostPort (BindAddr p) (Itoa (uint (BindPort p))) \<mapsto> ln) \<and>
        (\<forall>k l. forwards_store k l \<in> set (snd (snd (HandleSSHRequest env h ctx srv req))) \<longleftrightarrow>
           k = JoinHostPort (BindAddr p) (Itoa (uint (BindPort p))) \<and> l = ln)) \<and>
   (Type req' = ''cancel-tcpip-forward'' \<and>
    Unmarshal_remoteForwardCancelRequest (Payload req') = Inr q \<and>
    ResolveTCPAddr env' (JoinHostPort (BindAddr_cancel q) (Itoa (uint (BindPort_cancel q))))
      = Inr addr'
    \<longrightarrow> (\<forall>k. forwards_load k \<in> set (snd (snd (HandleSSHRequest env' h' ctx' srv' req'))) \<longleftrightarrow>
           k = JoinHostPort (BindAddr_cancel q) (Itoa (uint (BindPort_cancel q)))) \<and>
        (\<forall>l. Close_Listener l \<in> set (snd (snd (HandleSSHRequest env' h' ctx' srv' req'))) \<longrightarrow>
           entries h' (JoinHostPort (BindAddr_cancel q) (Itoa (uint (BindPort_cancel q))))
             = Some l)) \<and>
   (Type req' = ''cancel-tcpip-forward'' \<and>
    Unmarshal_remoteForwardCancelRequest (Payload req') = Inr q \<and>
    ResolveTCPAddr env' (JoinHostPort (BindAddr_cancel q) (Itoa (uint (BindPort_cancel q))))
      = Inr addr' \<and>
    ReversePortForwardingCallback srv' = Some cb'
    \<longrightarrow> (\<forall>l. Close_Listener l \<in> set (snd (snd (HandleSSHRequest env' h' ctx' srv' req'))) \<longleftrightarrow>
           entries h' (JoinHostPort (BindAddr_cancel q) (Itoa (uint (BindPort_cancel q))))
             = Some l))"
proof (intro conjI impI)
  let ?key = "JoinHostPort (BindAddr p) (Itoa (uint (BindPort p)))"
  assume a: "Type req = ''tcpip-forward'' \<and>
    Unmarshal_remoteForwardRequest (Payload req) = Inr p \<and>
    ReversePortForwardingCallback srv = Some cb \<and>
    ResolveTCPAddr env ?key = Inr addr \<and>
    cb ctx (Some addr) None 0 None None \<and>
    ListenTCP env addr = Inr ln"
  then have t: "Type req = ''tcpip-forward''" by simp
  note s = tcpip_forward_success [of req p srv cb env addr ctx ln "fst (init_forwards h)"]
  show "entries (fst (snd (HandleSSHRequest env h ctx srv req))) = (entries h)(?key \<mapsto> ln)"
    using a s by (simp add: HandleSSHRequest_forward [OF t] entries_init_forwards)
       (simp add: entries_def)
  show "\<forall>k l. forwards_store k l \<in> set (snd (snd (HandleSSHRequest env h ctx srv req))) \<longleftrightarrow>
           k = ?key \<and> l = ln"
    using a s by (auto simp: HandleSSHRequest_forward [OF t] init_forwards_def
        split: option.splits)
next
  let ?key = "JoinHostPort (BindAddr_cancel q) (Itoa (uint (BindPort_cancel q)))"
  assume a: "Type req' = ''cancel-tcpip-forward'' \<and>
    Unmarshal_remoteForwardCancelRequest (Payload req') = Inr q \<and>
    ResolveTCPAddr env' ?key = Inr addr'"
  then have t: "Type req' = ''cancel-tcpip-forward''" by simp
  note s = cancel_tcpip_forward_resolved [of req' q env' addr' "fst (init_forwards h')" ctx' srv']
  show "\<forall>k. forwards_load k \<in> set (snd (snd (HandleSSHRequest env' h' ctx' srv' req'))) \<longleftrightarrow>
           k = ?key"
    using a s by (auto simp: HandleSSHRequest_cancel [OF t] init_forwards_def
        split: option.splits)
  show "\<forall>l. Close_Listener l \<in> set (snd (snd (HandleSSHRequest env' h' ctx' srv' req'))) \<longrightarrow>
           entries h' ?key = Some l"
    using a s by (auto simp: HandleSSHRequest_cancel [OF t] init_forwards_def entries_def
        split: option.splits)
next
  let ?key = "JoinHostPort (BindAddr_cancel q) (Itoa (uint (BindPort_cancel q)))"
  assume a: "Type req' = ''cancel-tcpip-forward'' \<and>
    Unmarshal_remoteForwardCancelRequest (Payload req') = Inr q \<and>
    ResolveTCPAddr env' ?key = Inr addr' \<and>
    ReversePortForwardingCallback srv' = Some cb'"
  then have t: "Type req' = ''cancel-tcpip-forward''" by simp
  note s = cancel_tcpip_forward_resolved [of req' q env' addr' "fst (init_forwards h')" ctx' srv']
  show "\<forall>l. Close_Listener l \<in> set (snd (snd (HandleSSHRequest env' h' ctx' srv' req'))) \<longleftrightarrow>
           entries h' ?key = Some l"
    using a s by (auto simp: HandleSSHRequest_cancel [OF t] init_forwards_def entries_def
        split: option.splits)
qed

theorem registry_key_from_request_witness:
  "entries (fst (snd (HandleSSHRequest example_env \<lparr>forwards = None\<rparr> 0 allow_all example_forward)))
     = [''localhost:0'' \<mapsto> example_listener] \<and>
   forwards_load ''localhost:0'' \<in> set (snd (snd (HandleSSHRequest example_env
       \<lparr>forwards = Some [''localhost:0'' \<mapsto> example_listener]\<rparr> 0 allow_all example_cancel))) \<and>
   Close_Listener example_listener \<in> set (snd (snd (HandleSSHRequest example_env
       \<lparr>forwards = Some [''localhost:0'' \<mapsto> example_listener]\<rparr> 0 allow_all example_cancel))) \<and>
   Close_Listener example_listener \<notin> set (snd (snd (HandleSSHRequest example_env
       \<lparr>forwards = Some [''localhost:1'' \<mapsto> example_listener]\<rparr> 0 allow_all example_cancel)))"
proof -
  have c: "(\<lambda>ctx a b sig ln c. True) (0::nat) (Some example_addr) None (0::int) None None"
    by simp
  note t = registry_key_from_request
      [where req = example_forward and p = "\<lparr>BindAddr = ''localhost'', BindPort = 0\<rparr>"
         and srv = allow_all and cb = "\<lambda>ctx a b sig ln c. True" and env = example_env
         and addr = example_addr and ctx = 0 and ln = example_listener
         and h = "\<lparr>forwards = None\<rparr>"
         and req' = example_cancel
         and q = "\<lparr>BindAddr_cancel = ''localhost'', BindPort_cancel = 0\<rparr>"
         and env' = example_env and addr' = example_addr
         and ctx' = 0 and srv' = allow_all and cb' = "\<lambda>ctx a b sig ln c. True"]
  show ?thesis
    using t [where h' = "\<lparr>forwards = Some [''localhost:0'' \<mapsto> example_listener]\<rparr>"]
      t [where h' = "\<lparr>forwards = Some [''localhost:1'' \<mapsto> example_listener]\<rparr>"]
      Unmarshal_example_forward Unmarshal_example_cancel
      example_forward_facts example_cancel_facts allow_all_reverse c
    by (simp add: key_localhost_0 entries_def)
qed

subsection \<open>The forwarding task\<close>

text \<open>
  Claim C9. In the forwarding task, once the forwarded-tcpip channel is open: when the
  local or the remote address of the accepted socket is not a \<^verbatim>\<open>*net.TCPAddr\<close>, the
  failure is logged and the socket closed, and the task goes on. The callback is still
  called in channel-open mode (signal 2), with nil for each address that failed, and the
  relay, the channel-closed callback and \<^verbatim>\<open>lwg.Done()\<close> follow.
\<close>

theorem task_continues_after_address_check:
  assumes "asTCPAddr (LocalAddr c) = None \<or> asTCPAddr (RemoteAddr c) = None"
  shows "\<exists>pre post.
     forward_task ctx ln c bindAddr destPort originAddr originPort payload (Inr ch) =
       OpenChannel forwardedTCPChannelType payload # pre @
       Call_ReversePortForwardingCallback ctx (asTCPAddr (LocalAddr c)) (asTCPAddr (RemoteAddr c))
         2 (Some ln) (Some c) # post \<and>
     Close_Conn c \<in> set pre \<and>
     (asTCPAddr (LocalAddr c) = None \<longrightarrow>
        logMsg ''invalid channel local address %v'' [Addr_String (LocalAddr c)] \<in> set pre) \<and>
     (asTCPAddr (RemoteAddr c) = None \<longrightarrow>
        logMsg ''invalid channel remote address %v'' [Addr_String (RemoteAddr c)] \<in> set pre) \<and>
     post = [logMsg ''opened channel on %s:%d for %s:%d''
               [bindAddr, Itoa destPort, originAddr, Itoa originPort],
             Go (DiscardRequests ch), Go (Copy_Channel_Conn ch c), Go (Copy_Conn_Channel c ch)] @
            task_close ctx ln c bindAddr destPort originAddr originPort @ [lwg_Done]"
proof -
  let ?pre = "(if asTCPAddr (LocalAddr c) = None
                then [logMsg ''invalid channel local address %v'' [Addr_String (LocalAddr c)],
                      Close_Conn c]
                else []) @
               (if asTCPAddr (RemoteAddr c) = None
                then [logMsg ''invalid channel remote address %v'' [Addr_String (RemoteAddr c)],
                      Close_Conn c]
                else [])"
  let ?post = "[logMsg ''opened channel on %s:%d for %s:%d''
               [bindAddr, Itoa destPort, originAddr, Itoa originPort],
             Go (DiscardRequests ch), Go (Copy_Channel_Conn ch c), Go (Copy_Conn_Channel c ch)] @
            task_close ctx ln c bindAddr destPort originAddr originPort @ [lwg_Done]"
  have "forward_task ctx ln c bindAddr destPort originAddr originPort payload (Inr ch) =
       OpenChannel forwardedTCPChannelType payload # ?pre @
       Call_ReversePortForwardingCallback ctx (asTCPAddr (LocalAddr c)) (asTCPAddr (RemoteAddr c))
         2 (Some ln) (Some c) # ?post"
    by (simp add: forward_task_def task_open_def Let_def)
  moreover have "Close_Conn c \<in> set ?pre"
    using assms by auto
  ultimately show ?thesis
    by (intro exI [of _ ?pre] exI [of _ ?post]) simp
qed

theorem task_continues_after_address_check_witness:
  "asTCPAddr (LocalAddr example_conn) = None \<and>
   forward_task 0 example_listener example_conn ''localhost'' 43210 ''203.0.113.9'' 40000 [] (Inr 5)
     = [OpenChannel ''forwarded-tcpip'' [],
        logMsg ''invalid channel local address %v'' [''@''],
        Close_Conn example_conn,
        Call_ReversePortForwardingCallback 0 None
          (Some \<lparr>IP = ''203.0.113.9'', Port = 40000, Zone = []\<rparr>) 2
          (Some example_listener) (Some example_conn),
        logMsg ''opened channel on %s:%d for %s:%d''
          [''localhost'', Itoa 43210, ''203.0.113.9'', Itoa 40000],
        Go (DiscardRequests 5), Go (Copy_Channel_Conn 5 example_conn),
        Go (Copy_Conn_Channel example_conn 5),
        Call_ReversePortForwardingCallback 0 None
          (Some \<lparr>IP = ''203.0.113.9'', Port = 40000, Zone = []\<rparr>) (- 2)
          (Some example_listener) None,
        logMsg ''closed channel on %s:%d for %s:%d''
          [''localhost'', Itoa 43210, ''203.0.113.9'', Itoa 40000],
        lwg_Done]"
proof -
  have a: "asTCPAddr (LocalAddr example_conn) = None"
    by (simp add: example_conn_def)
  from task_continues_after_address_check [where c = example_conn and ctx = 0
      and ln = example_listener and bindAddr = "''localhost''" and destPort = 43210
      and originAddr = "''203.0.113.9''" and originPort = 40000 and payload = "[]" and ch = 5] a
  obtain pre post where
    "forward_task 0 example_listener example_conn ''localhost'' 43210 ''203.0.113.9'' 40000 []
       (Inr 5) =
     OpenChannel forwardedTCPChannelType [] # pre @
       Call_ReversePortForwardingCallback 0 (asTCPAddr (LocalAddr example_conn))
         (asTCPAddr (RemoteAddr example_conn)) 2 (Some example_listener) (Some example_conn)
       # post"
    by blast
  then show ?thesis
    using a by (simp add: forward_task_def task_open_def task_close_def Let_def
        example_conn_def forwardedTCPChannelType_def)
qed

subsection \<open>The transition system\<close>

lemma effect_frame [simp]:
  "handler (effect s e) = handler s" "lwg (effect s e) = lwg s" "tasks (effect s e) = tasks s"
  "trace (effect s e) = trace s" "panicked (effect s e) = panicked s"
  "loops (effect s e) = loops s @ loop_of e"
  by (cases "(s, e)" rule: effect.cases; simp)+

lemma foldl_effect_frame [simp]:
  "handler (foldl effect s evs) = handler s" "lwg (foldl effect s evs) = lwg s"
  "tasks (foldl effect s evs) = tasks s" "trace (foldl effect s evs) = trace s"
  "panicked (foldl effect s evs) = panicked s"
  "loops (foldl effect s evs) = loops s @ concat (map loop_of evs)"
  by (induction evs arbitrary: s) simp_all

lemma emit_frame [simp]:
  "handler (emit who evs s) = handler s" "lwg (emit who evs s) = lwg s"
  "tasks (emit who evs s) = tasks s" "loops (emit who evs s) = loops s"
  "trace (emit who evs s) = trace s @ map (Pair who) evs"
  "panicked (emit who evs s) = panicked s"
  by (simp_all add: emit_def)

lemmas handler_defs =
  HandleSSHRequest_def tcpip_forward_def cancel_tcpip_forward_def init_forwards_def Let_def

lemma HandleSSHRequest_replay:
  "HandleSSHRequest env h ctx srv req = (r, h', evs) \<Longrightarrow>
   foldl apply_event (entries h) evs = entries h'"
  by (auto simp: handler_defs entries_def split: option.splits sum.splits if_splits)

lemma HandleSSHRequest_under_lock:
  "HandleSSHRequest env h ctx srv req = (r, h', evs) \<Longrightarrow>
   under_lock False evs \<and> \<not> held_after False evs"
  by (auto simp: handler_defs split: option.splits sum.splits if_splits)

lemma HandleSSHRequest_no_delete:
  "HandleSSHRequest env h ctx srv req = (r, h', evs) \<Longrightarrow> forwards_delete k \<notin> set evs"
  by (auto simp: handler_defs split: option.splits sum.splits if_splits)

lemma HandleSSHRequest_loops:
  "HandleSSHRequest env h ctx srv req = (r, h', evs) \<Longrightarrow>
   concat (map loop_of evs) = [] \<and> entries h' = entries h \<or>
   (\<exists>L. concat (map loop_of evs) = [L] \<and> l_pc L = Accepting \<and>
        entries h' = (entries h)(l_addrstr L \<mapsto> l_ln L))"
  by (auto simp: handler_defs entries_def split: option.splits sum.splits if_splits)


lemma under_lock_append:
  "under_lock b (xs @ ys) = (under_lock b xs \<and> under_lock (held_after b xs) ys)"
  by (induction b xs rule: under_lock.induct) auto

lemma held_after_append: "held_after b (xs @ ys) = held_after (held_after b xs) ys"
  by (induction b xs rule: held_after.induct) auto

lemma replay_append: "replay (xs @ ys) = foldl apply_event (replay xs) ys"
  by (simp add: replay_def)

lemma has_loop_append:
  assumes "has_loop ls k ln"
  shows "has_loop (ls @ ms) k ln"
proof -
  from assms obtain j where j: "j < length ls" "l_addrstr (ls ! j) = k" "l_ln (ls ! j) = ln"
    "l_pc (ls ! j) \<in> {Accepting, Waiting, Deleting}"
    unfolding has_loop_def by blast
  show ?thesis
    unfolding has_loop_def using j by (intro exI [of _ j]) (simp add: nth_append)
qed

lemma has_loop_new: "l_pc L = Accepting \<Longrightarrow> has_loop (ls @ [L]) (l_addrstr L) (l_ln L)"
  unfolding has_loop_def by (auto intro!: exI [of _ "length ls"])

lemma has_loop_update:
  assumes "has_loop ls k ln" and "l < length ls"
    and "k \<noteq> l_addrstr (ls ! l) \<or> (l_pc (ls ! l) \<in> {Accepting, Waiting, Deleting} \<longrightarrow>
           pc \<in> {Accepting, Waiting, Deleting})"
  shows "has_loop (ls[l := (ls ! l)\<lparr>l_pc := pc\<rparr>]) k ln"
proof -
  from assms(1) obtain j where j: "j < length ls" "l_addrstr (ls ! j) = k" "l_ln (ls ! j) = ln"
    "l_pc (ls ! j) \<in> {Accepting, Waiting, Deleting}"
    unfolding has_loop_def by blast
  show ?thesis
    unfolding has_loop_def
    using j assms(2,3) by (intro exI [of _ j]) (auto simp: nth_list_update)
qed

lemma has_loop_update_dead:
  assumes "has_loop ls k ln" and "l < length ls"
    and "l_pc (ls ! l) \<notin> {Accepting, Waiting, Deleting}"
  shows "has_loop (ls[l := (ls ! l)\<lparr>l_pc := pc\<rparr>]) k ln"
  using assms by (intro has_loop_update) auto

lemma registry_inv_init: "registry_inv init_system"
  by (simp add: registry_inv_def init_system_def entries_def replay_def)

lemma map_snd_Pair: "map (snd \<circ> Pair who) evs = evs"
  by (induction evs) auto

lemma registry_inv_call:
  assumes "registry_inv s" and "step_call srv env ctx req s = Some s'"
  shows "registry_inv s'"
proof -
  obtain r h evs where H: "HandleSSHRequest env (handler s) ctx srv req = (r, h, evs)"
    by (cases "HandleSSHRequest env (handler s) ctx srv req") auto
  then have s': "s' = foldl effect (emit Handler evs (s\<lparr>handler := h, panicked := (r = Panic)\<rparr>)) evs"
    using assms(2) by (simp add: step_call_def)
  have hs: "handler s' = h" and tr: "trace s' = trace s @ map (Pair Handler) evs"
    and ls: "loops s' = loops s @ concat (map loop_of evs)"
    by (simp_all add: s')
  note inv = assms(1) [unfolded registry_inv_def]
  have 1: "has_loop (loops s') k ln" if "entries h k = Some ln" for k ln
  proof -
    from HandleSSHRequest_loops [OF H]
    consider "concat (map loop_of evs) = []" "entries h = entries (handler s)"
      | L where "concat (map loop_of evs) = [L]" "l_pc L = Accepting"
          "entries h = (entries (handler s))(l_addrstr L \<mapsto> l_ln L)"
      by blast
    then show ?thesis
    proof cases
      case 1
      show ?thesis unfolding ls 1(1) using that inv 1(2) by simp
    next
      case 2
      show ?thesis
      proof (cases "k = l_addrstr L")
        case True
        then show ?thesis using that 2 has_loop_new [of L "loops s"] by (simp add: ls)
      next
        case False
        then have "has_loop (loops s) k ln" using that 2 inv by simp
        then show ?thesis unfolding ls by (rule has_loop_append)
      qed
    qed
  qed
  have 2: "under_lock False (map snd (trace s')) \<and> \<not> held_after False (map snd (trace s'))"
    using inv HandleSSHRequest_under_lock [OF H]
    by (simp add: tr under_lock_append held_after_append map_snd_Pair)
  have 3: "entries h = replay (map snd (trace s'))"
    using inv HandleSSHRequest_replay [OF H] by (simp add: tr replay_append map_snd_Pair)
  have 4: "\<forall>(who, e) \<in> set (trace s').
         (\<forall>k ln. e = forwards_store k ln \<longrightarrow> who = Handler) \<and>
         (\<forall>k. e = forwards_delete k \<longrightarrow> (\<exists>l. who = Loop l))"
    using inv HandleSSHRequest_no_delete [OF H] by (auto simp: tr)
  show ?thesis
    unfolding registry_inv_def using 1 2 3 4 by (simp add: hs)
qed


lemma foldl_apply_event_quiet:
  "\<forall>e \<in> set evs. (\<forall>k ln. e \<noteq> forwards_store k ln) \<and> (\<forall>k. e \<noteq> forwards_delete k) \<Longrightarrow>
   foldl apply_event m evs = m"
proof (induction evs arbitrary: m)
  case Nil
  then show ?case by simp
next
  case (Cons e evs)
  then have "apply_event m e = m" by (cases e) auto
  with Cons show ?case by simp
qed

lemma registry_inv_quiet:
  assumes "registry_inv s"
    and "handler s' = handler s"
    and "trace s' = trace s @ map (Pair who) evs"
    and "under_lock False evs" and "\<not> held_after False evs"
    and "\<forall>e \<in> set evs. (\<forall>k ln. e \<noteq> forwards_store k ln) \<and> (\<forall>k. e \<noteq> forwards_delete k)"
    and "\<And>k ln. has_loop (loops s) k ln \<Longrightarrow> has_loop (loops s') k ln"
  shows "registry_inv s'"
proof -
  note inv = assms(1) [unfolded registry_inv_def]
  have 1: "has_loop (loops s') k ln" if "entries (handler s) k = Some ln" for k ln
  proof -
    have "has_loop (loops s) k ln" using that inv by simp
    then show ?thesis by (rule assms(7))
  qed
  have 2: "under_lock False (map snd (trace s')) \<and> \<not> held_after False (map snd (trace s'))"
    using inv assms(4,5)
    by (simp add: assms(3) under_lock_append held_after_append map_snd_Pair)
  have 3: "entries (handler s) = replay (map snd (trace s'))"
    using inv foldl_apply_event_quiet [OF assms(6)]
    by (simp add: assms(3) replay_append map_snd_Pair)
  have 4: "\<forall>(who, e) \<in> set (trace s').
         (\<forall>k ln. e = forwards_store k ln \<longrightarrow> who = Handler) \<and>
         (\<forall>k. e = forwards_delete k \<longrightarrow> (\<exists>l. who = Loop l))"
    using inv assms(6) by (auto simp: assms(3))
  show ?thesis
    unfolding registry_inv_def using 1 2 3 4 by (simp add: assms(2))
qed

lemma start_task_frame [simp]:
  "handler (start_task l s g) = handler s" "lwg (start_task l s g) = lwg s"
  "loops (start_task l s g) = loops s" "trace (start_task l s g) = trace s"
  "panicked (start_task l s g) = panicked s"
  by (cases "(l, s, g)" rule: start_task.cases; simp)+

lemma registry_inv_delete:
  assumes "registry_inv s" and "step_loop_delete l s = Some s'"
  shows "registry_inv s'"
proof -
  let ?k = "l_addrstr (loops s ! l)"
  from assms(2) have l: "l < length (loops s)" and pc: "l_pc (loops s ! l) = Deleting"
    and hs: "entries (handler s') = (entries (handler s))(?k := None)"
    and ls: "loops s' = (loops s)[l := (loops s ! l)\<lparr>l_pc := Stopping\<rparr>]"
    and tr: "trace s' = trace s @ map (Pair (Loop l)) [Lock, forwards_delete ?k, Unlock]"
    by (auto simp: step_loop_delete_def entries_def split: if_splits option.splits)
  note inv = assms(1) [unfolded registry_inv_def]
  have 1: "has_loop (loops s') k ln" if "entries (handler s') k = Some ln" for k ln
  proof -
    from that have k: "k \<noteq> ?k" and "entries (handler s) k = Some ln"
      by (auto simp: hs split: if_splits)
    then have "has_loop (loops s) k ln" using inv by simp
    then show ?thesis
      unfolding ls using l k by (intro has_loop_update) auto
  qed
  have 2: "under_lock False (map snd (trace s')) \<and> \<not> held_after False (map snd (trace s'))"
    using inv by (simp add: tr under_lock_append held_after_append)
  have 3: "entries (handler s') = replay (map snd (trace s'))"
    using inv by (simp add: tr hs replay_append)
  have 4: "\<forall>(who, e) \<in> set (trace s').
         (\<forall>k ln. e = forwards_store k ln \<longrightarrow> who = Handler) \<and>
         (\<forall>k. e = forwards_delete k \<longrightarrow> (\<exists>l. who = Loop l))"
    using inv by (auto simp: tr)
  show ?thesis
    unfolding registry_inv_def using 1 2 3 4 by simp
qed

lemma task_open_quiet:
  "task_open ctx ln c b dp oa op pl r = (evs, relays) \<Longrightarrow>
   under_lock False evs \<and> \<not> held_after False evs \<and>
   (\<forall>e \<in> set evs. (\<forall>k ln. e \<noteq> forwards_store k ln) \<and> (\<forall>k. e \<noteq> forwards_delete k))"
  by (auto simp: task_open_def Let_def split: sum.splits if_splits)

lemma registry_inv_step:
  assumes "registry_inv s" and "step srv a s = Some s'"
  shows "registry_inv s'"
proof (cases a)
  case (Call_HandleSSHRequest env ctx req)
  then show ?thesis
    using assms registry_inv_call by (auto simp: step.simps split: if_splits)
next
  case (Ctx_Done ctx)
  then have "s' = s\<lparr>done_ctxs := insert ctx (done_ctxs s)\<rparr>"
    using assms(2) by (auto simp: step.simps split: if_splits)
  then show ?thesis
    using assms(1) by (simp add: registry_inv_def)
next
  case (Watcher_Lookup w)
  then have "step_watcher_lookup w s = Some s'"
    using assms(2) by (auto simp: step.simps split: if_splits)
  then show ?thesis
    by (intro registry_inv_quiet [OF assms(1), where who = "Watcher w"
          and evs = "[Lock, forwards_load (w_addrstr (watchers s ! w)), Unlock]"])
       (auto simp: step_watcher_lookup_def split: if_splits)
next
  case (Watcher_Close w)
  then have "step_watcher_close w s = Some s'"
    using assms(2) by (auto simp: step.simps split: if_splits)
  then obtain ln where "w_pc (watchers s ! w) = Found ln"
    and "s' = emit (Watcher w) [Close_Listener ln]
                  (s\<lparr>watchers := (watchers s)[w := (watchers s ! w)\<lparr>w_pc := Exited\<rparr>],
                     closed := insert ln (closed s)\<rparr>)"
    by (auto simp: step_watcher_close_def split: if_splits watcher_pc.splits)
  then show ?thesis
    by (intro registry_inv_quiet [OF assms(1), where who = "Watcher w"
          and evs = "[Close_Listener ln]"]) auto
next
  case (Loop_Accept l r)
  then have st: "step_loop_accept l r s = Some s'"
    using assms(2) by (auto simp: step.simps split: if_splits)
  show ?thesis
  proof (cases r)
    case (Inl err)
    with st show ?thesis
      by (intro registry_inv_quiet [OF assms(1), where who = "Loop l"
            and evs = "if \<not> is_ErrClosed err
                        then [logMsg ''failed to accept connection on %s - %s''
                                [Addr_String (ln_Addr (l_ln (loops s ! l))), Error err]]
                        else []"])
         (auto simp: step_loop_accept_def Let_def split: if_splits intro: has_loop_update)
  next
    case (Inr c)
    with st show ?thesis
      by (intro registry_inv_quiet [OF assms(1), where who = "Loop l"
            and evs = "[lwg_Add, Go (accept_iteration (l_ctx (loops s ! l)) (l_ln (loops s ! l))
                         (l_bindAddr (loops s ! l)) (l_destPort (loops s ! l)) c)]"])
         (auto simp: step_loop_accept_def Let_def split: if_splits)
  qed
next
  case (Loop_Wait l)
  then have "step_loop_wait l s = Some s'"
    using assms(2) by (auto simp: step.simps split: if_splits)
  then show ?thesis
    by (intro registry_inv_quiet [OF assms(1), where who = "Loop l" and evs = "[]"])
       (auto simp: step_loop_wait_def split: if_splits intro: has_loop_update)
next
  case (Loop_Delete l)
  then show ?thesis
    using assms registry_inv_delete by (auto simp: step.simps split: if_splits)
next
  case (Loop_Stopped l)
  then have "step_loop_stopped l s = Some s'"
    using assms(2) by (auto simp: step.simps split: if_splits)
  then have l: "l < length (loops s)" and pc: "l_pc (loops s ! l) = Stopping"
    and s': "s' = emit (Loop l)
              [Call_ReversePortForwardingCallback (l_ctx (loops s ! l))
                 (Some (l_addr (loops s ! l))) None (- 1) None None,
               logMsg ''port forward ended on %s for %s''
                 [TCPAddr_String (l_addr (loops s ! l)), l_remote (loops s ! l)]]
              (s\<lparr>loops := (loops s)[l := (loops s ! l)\<lparr>l_pc := Finished\<rparr>]\<rparr>)"
    by (auto simp: step_loop_stopped_def Let_def split: if_splits)
  have hl: "has_loop (loops s') k ln" if "has_loop (loops s) k ln" for k ln
    unfolding s' using that l pc by (simp add: has_loop_update_dead)
  show ?thesis
    by (rule registry_inv_quiet [OF assms(1), where who = "Loop l"
          and evs = "[Call_ReversePortForwardingCallback (l_ctx (loops s ! l))
                        (Some (l_addr (loops s ! l))) None (- 1) None None,
                      logMsg ''port forward ended on %s for %s''
                        [TCPAddr_String (l_addr (loops s ! l)), l_remote (loops s ! l)]]"])
       (simp_all add: hl, simp_all add: s')
next
  case (Task_Open t r)
  then have st: "step_task_open t r s = Some s'"
    using assms(2) by (auto simp: step.simps split: if_splits)
  let ?T = "tasks s ! t"
  obtain evs relays where o: "task_open (t_ctx ?T) (t_ln ?T) (t_conn ?T) (t_bindAddr ?T)
      (t_destPort ?T) (t_originAddr ?T) (t_originPort ?T) (t_payload ?T) r = (evs, relays)"
    by (cases "task_open (t_ctx ?T) (t_ln ?T) (t_conn ?T) (t_bindAddr ?T)
      (t_destPort ?T) (t_originAddr ?T) (t_originPort ?T) (t_payload ?T) r") auto
  note q = task_open_quiet [OF o]
  from st o q show ?thesis
    by (intro registry_inv_quiet [OF assms(1), where who = "Task (t_loop ?T) t"
          and evs = "if relays then evs else evs @ [lwg_Done]"])
       (auto simp: step_task_open_def Let_def under_lock_append held_after_append
          split: if_splits)
next
  case (Task_Return t)
  then have "step_task_return t s = Some s'"
    using assms(2) by (auto simp: step.simps split: if_splits)
  then show ?thesis
    by (intro registry_inv_quiet [OF assms(1), where who = "Task (t_loop (tasks s ! t)) t"
          and evs = "task_close (t_ctx (tasks s ! t)) (t_ln (tasks s ! t)) (t_conn (tasks s ! t))
                 (t_bindAddr (tasks s ! t)) (t_destPort (tasks s ! t))
                 (t_originAddr (tasks s ! t)) (t_originPort (tasks s ! t)) @ [lwg_Done]"])
       (auto simp: step_task_return_def Let_def task_close_def split: if_splits)
qed

lemma registry_inv_run:
  "registry_inv s \<Longrightarrow> run srv acts s = Some s' \<Longrightarrow> registry_inv s'"
  by (induction acts arbitrary: s) (auto split: option.splits dest: registry_inv_step)

lemma HandleSSHRequest_example_forward:
  assumes "ListenTCP env example_addr = Inr ln" and "ResolveTCPAddr env = (\<lambda>s. Inr example_addr)"
  shows "HandleSSHRequest env h 0 allow_all example_forward =
     (Reply True (Some (Marshal_remoteForwardSuccess
         \<lparr>BindPort_success = word_of_int (listener_port ln)\<rparr>)),
      \<lparr>forwards = Some ((entries h)(''localhost:0'' \<mapsto> ln))\<rparr>,
      snd (init_forwards h) @
      [Call_ReversePortForwardingCallback 0 (Some example_addr) None 0 None None,
       Listen example_addr,
       logMsg ''port forward started on %s for %s''
         [TCPAddr_String example_addr, conn_RemoteAddr env],
       Call_ReversePortForwardingCallback 0 (Some example_addr) None 1 (Some ln) None,
       Lock, forwards_store ''localhost:0'' ln, Unlock,
       Go (CtxWatcher 0 ''localhost:0''),
       Go (AcceptLoop 0 ln example_addr ''localhost:0'' ''localhost'' (listener_port ln)
             (conn_RemoteAddr env))])"
proof -
  have r: "ResolveTCPAddr env
             (JoinHostPort (BindAddr \<lparr>BindAddr = ''localhost'', BindPort = 0\<rparr>)
                (Itoa (uint (BindPort \<lparr>BindAddr = ''localhost'', BindPort = 0\<rparr>))))
           = Inr example_addr"
    using assms(2) by simp
  have c: "(\<lambda>ctx a b sig ln c. True) (0::nat) (Some example_addr) None (0::int) None None"
    by simp
  have t: "Type example_forward = ''tcpip-forward''"
    by (simp add: example_forward_def)
  show ?thesis
    using tcpip_forward_success [OF Unmarshal_example_forward allow_all_reverse r c assms(1),
        of "fst (init_forwards h)"]
    by (simp add: HandleSSHRequest_forward [OF t] key_localhost_0 entries_init_forwards)
qed

lemma HandleSSHRequest_example_cancel:
  assumes "ResolveTCPAddr env = (\<lambda>s. Inr example_addr)" and "forwards h = Some m"
  shows "HandleSSHRequest env h 0 allow_all example_cancel =
     (Reply True None, h,
      [Lock, Unlock, Lock, forwards_load ''localhost:0'', Unlock,
       Call_ReversePortForwardingCallback 0 (Some example_addr) None (- 1) None None] @
      (case m ''localhost:0'' of
         None \<Rightarrow> []
       | Some ln \<Rightarrow>
           [logMsg ''port forward cancelled on %s for %s'' [''localhost:0'', conn_RemoteAddr env],
            Close_Listener ln]))"
proof -
  have r: "ResolveTCPAddr env
     (JoinHostPort (BindAddr_cancel \<lparr>BindAddr_cancel = ''localhost'', BindPort_cancel = 0\<rparr>)
        (Itoa (uint (BindPort_cancel \<lparr>BindAddr_cancel = ''localhost'', BindPort_cancel = 0\<rparr>))))
   = Inr example_addr"
    using assms(1) by simp
  have i: "init_forwards h = (h, [Lock, Unlock])"
    using assms(2) by (simp add: init_forwards_def)
  show ?thesis
    using cancel_tcpip_forward_resolved [OF Unmarshal_example_cancel r, of h 0 allow_all]
    by (simp add: HandleSSHRequest_cancel [OF example_cancel_facts(1)] i allow_all_reverse
        key_localhost_0 entries_def assms(2) split: option.split)
qed

lemma env_facts:
  "ListenTCP example_env example_addr = Inr example_listener"
  "ResolveTCPAddr example_env = (\<lambda>s. Inr example_addr)"
  "ListenTCP example_env2 example_addr = Inr (Listener 2 (TCP \<lparr>IP = ''127.0.0.1'', Port = 43211, Zone = []\<rparr>))"
  "ResolveTCPAddr example_env2 = (\<lambda>s. Inr example_addr)"
  by (simp_all add: example_env_def example_env2_def)

lemma example_run_cancel:
  "map_option (observe ''localhost:0'')
     (run allow_all
        [Call_HandleSSHRequest example_env 0 example_forward,
         Call_HandleSSHRequest example_env 0 example_cancel] init_system)
   = Some (Some example_listener, False)"
  by (simp add: step.simps step_call_def init_system_def emit_def
      HandleSSHRequest_example_forward [OF env_facts(1,2)]
      HandleSSHRequest_example_cancel [OF env_facts(2)]
      entries_def accepting_def init_forwards_def observe_def)

text \<open>
  A key registered twice: the second store (line 136) replaces the entry of the first
  listener, and the deletion of the second accept loop (lines 215-218) removes the entry
  while the first listener is still accepting.
\<close>

lemma example_run_delete:
  "map_option (observe ''localhost:0'')
     (run allow_all
        [Call_HandleSSHRequest example_env 0 example_forward,
         Call_HandleSSHRequest example_env2 0 example_forward,
         Call_HandleSSHRequest example_env 0 example_cancel,
         Loop_Accept 1 (Inl closed_error),
         Loop_Wait 1,
         Loop_Delete 1] init_system)
   = Some (None, True)"
  by (simp add: step.simps step_call_def init_system_def emit_def
      HandleSSHRequest_example_forward [OF env_facts(1,2)]
      HandleSSHRequest_example_forward [OF env_facts(3,4)]
      HandleSSHRequest_example_cancel [OF env_facts(2)]
      step_loop_accept_def step_loop_wait_def step_loop_delete_def closed_error_def
      entries_def accepting_def init_forwards_def observe_def example_listener_def)

lemma HandleSSHRequest_store:
  "forwards_store k ln \<in> set (snd (snd (HandleSSHRequest env h ctx srv req))) \<Longrightarrow>
   Type req = ''tcpip-forward'' \<and> (\<exists>p. fst (HandleSSHRequest env h ctx srv req) = Reply True (Some p))"
  by (auto simp: handler_defs split: option.splits sum.splits if_splits)

text \<open>
  The converse direction. While no key has been registered twice, every accept loop that
  has not run its deletion has its listener in the registry, under its key.
\<close>

lemma keys_update:
  "l < length ls \<Longrightarrow> map l_addrstr (ls[l := (ls ! l)\<lparr>l_pc := pc\<rparr>]) = map l_addrstr ls"
  by (simp add: map_update list_update_same_conv)

lemma all_registered_update:
  assumes "all_registered ls m" and "l < length ls"
    and "pc \<in> {Accepting, Waiting, Deleting} \<longrightarrow> l_pc (ls ! l) \<in> {Accepting, Waiting, Deleting}"
  shows "all_registered (ls[l := (ls ! l)\<lparr>l_pc := pc\<rparr>]) m"
  unfolding all_registered_def
proof (intro allI impI)
  fix j
  assume j: "j < length (ls[l := (ls ! l)\<lparr>l_pc := pc\<rparr>])"
    and p: "l_pc (ls[l := (ls ! l)\<lparr>l_pc := pc\<rparr>] ! j) \<in> {Accepting, Waiting, Deleting}"
  show "m (l_addrstr (ls[l := (ls ! l)\<lparr>l_pc := pc\<rparr>] ! j)) =
        Some (l_ln (ls[l := (ls ! l)\<lparr>l_pc := pc\<rparr>] ! j))"
  proof (cases "j = l")
    case True
    with p assms(2,3) have "l_pc (ls ! l) \<in> {Accepting, Waiting, Deleting}" by simp
    with assms(1,2) have "m (l_addrstr (ls ! l)) = Some (l_ln (ls ! l))"
      unfolding all_registered_def by blast
    with True assms(2) show ?thesis by simp
  next
    case False
    with j p have "j < length ls" "l_pc (ls ! j) \<in> {Accepting, Waiting, Deleting}" by simp_all
    with assms(1) have "m (l_addrstr (ls ! j)) = Some (l_ln (ls ! j))"
      unfolding all_registered_def by blast
    with False show ?thesis by simp
  qed
qed

lemma all_registered_new:
  assumes "all_registered ls m" and "l_addrstr L \<notin> set (map l_addrstr ls)"
  shows "all_registered (ls @ [L]) (m(l_addrstr L \<mapsto> l_ln L))"
  unfolding all_registered_def
proof (intro allI impI)
  fix j
  assume j: "j < length (ls @ [L])"
    and p: "l_pc ((ls @ [L]) ! j) \<in> {Accepting, Waiting, Deleting}"
  show "(m(l_addrstr L \<mapsto> l_ln L)) (l_addrstr ((ls @ [L]) ! j)) = Some (l_ln ((ls @ [L]) ! j))"
  proof (cases "j < length ls")
    case True
    then have "l_addrstr (ls ! j) \<in> set (map l_addrstr ls)" by simp
    with assms(2) have ne: "l_addrstr (ls ! j) \<noteq> l_addrstr L" by metis
    from True p have "l_pc (ls ! j) \<in> {Accepting, Waiting, Deleting}"
      by (simp add: nth_append)
    with assms(1) True have "m (l_addrstr (ls ! j)) = Some (l_ln (ls ! j))"
      unfolding all_registered_def by blast
    with True ne show ?thesis by (simp add: nth_append)
  next
    case False
    with j have "j = length ls" by simp
    then show ?thesis by simp
  qed
qed

lemma all_registered_delete:
  assumes "all_registered ls m" and "l < length ls" and "distinct (map l_addrstr ls)"
    and "pc \<notin> {Accepting, Waiting, Deleting}"
  shows "all_registered (ls[l := (ls ! l)\<lparr>l_pc := pc\<rparr>]) (m(l_addrstr (ls ! l) := None))"
  unfolding all_registered_def
proof (intro allI impI)
  fix j
  assume j: "j < length (ls[l := (ls ! l)\<lparr>l_pc := pc\<rparr>])"
    and p: "l_pc (ls[l := (ls ! l)\<lparr>l_pc := pc\<rparr>] ! j) \<in> {Accepting, Waiting, Deleting}"
  from p assms(2,4) have jl: "j \<noteq> l" by auto
  with j p have j': "j < length ls" and "l_pc (ls ! j) \<in> {Accepting, Waiting, Deleting}"
    by simp_all
  with assms(1) have m: "m (l_addrstr (ls ! j)) = Some (l_ln (ls ! j))"
    unfolding all_registered_def by blast
  have "map l_addrstr ls ! j \<noteq> map l_addrstr ls ! l"
    using assms(2,3) j' jl by (simp add: nth_eq_iff_index_eq del: nth_map)
  then have "l_addrstr (ls ! j) \<noteq> l_addrstr (ls ! l)"
    using assms(2) j' by simp
  with m jl show "(m(l_addrstr (ls ! l) := None)) (l_addrstr (ls[l := (ls ! l)\<lparr>l_pc := pc\<rparr>] ! j)) =
        Some (l_ln (ls[l := (ls ! l)\<lparr>l_pc := pc\<rparr>] ! j))"
    by simp
qed

lemma converse_step:
  assumes inv: "keys_once s \<longrightarrow> all_registered (loops s) (entries (handler s))"
    and st: "step srv a s = Some s'"
    and d: "keys_once s'"
  shows "all_registered (loops s') (entries (handler s'))"
proof (cases a)
  case (Call_HandleSSHRequest env ctx req)
  obtain r h evs where H: "HandleSSHRequest env (handler s) ctx srv req = (r, h, evs)"
    by (cases "HandleSSHRequest env (handler s) ctx srv req") auto
  with Call_HandleSSHRequest st
  have ls: "loops s' = loops s @ concat (map loop_of evs)" and hs: "handler s' = h"
    by (auto simp: step.simps step_call_def split: if_splits)
  from d have d0: "distinct (map l_addrstr (loops s))"
    by (simp add: keys_once_def ls)
  with inv have reg: "all_registered (loops s) (entries (handler s))"
    by (simp add: keys_once_def)
  from HandleSSHRequest_loops [OF H]
  consider "concat (map loop_of evs) = []" "entries h = entries (handler s)"
    | L where "concat (map loop_of evs) = [L]" "l_pc L = Accepting"
        "entries h = (entries (handler s))(l_addrstr L \<mapsto> l_ln L)"
    by blast
  then show ?thesis
  proof cases
    case 1
    show ?thesis unfolding ls hs 1 using reg by simp
  next
    case 2
    from d have "l_addrstr L \<notin> set (map l_addrstr (loops s))"
      unfolding keys_once_def ls 2(1) by simp
    with reg show ?thesis
      unfolding ls hs 2(1,3) by (rule all_registered_new)
  qed
next
  case (Ctx_Done ctx)
  then have "loops s' = loops s" "handler s' = handler s"
    using st by (auto simp: step.simps split: if_splits)
  with inv d show ?thesis by (simp add: keys_once_def)
next
  case (Watcher_Lookup w)
  then have "loops s' = loops s" "handler s' = handler s"
    using st by (auto simp: step.simps step_watcher_lookup_def split: if_splits)
  with inv d show ?thesis by (simp add: keys_once_def)
next
  case (Watcher_Close w)
  then have "loops s' = loops s" "handler s' = handler s"
    using st by (auto simp: step.simps step_watcher_close_def split: if_splits watcher_pc.splits)
  with inv d show ?thesis by (simp add: keys_once_def)
next
  case (Loop_Accept l r)
  then have s1: "step_loop_accept l r s = Some s'"
    using st by (auto simp: step.simps split: if_splits)
  then have l: "l < length (loops s)" and pc: "l_pc (loops s ! l) = Accepting"
    and hs: "handler s' = handler s"
    by (auto simp: step_loop_accept_def Let_def split: if_splits sum.splits)
  from s1 consider "loops s' = loops s"
    | "loops s' = (loops s)[l := (loops s ! l)\<lparr>l_pc := Waiting\<rparr>]"
    by (auto simp: step_loop_accept_def Let_def split: if_splits sum.splits)
  then show ?thesis
  proof cases
    case 1
    with inv d hs show ?thesis by (simp add: keys_once_def)
  next
    case 2
    from d have "distinct (map l_addrstr (loops s))"
      unfolding keys_once_def 2 by (simp add: keys_update [OF l])
    with inv have "all_registered (loops s) (entries (handler s))"
      by (simp add: keys_once_def)
    then show ?thesis
      unfolding 2 hs using l pc by (intro all_registered_update) simp_all
  qed
next
  case (Loop_Wait l)
  then have l: "l < length (loops s)" and pc: "l_pc (loops s ! l) = Waiting"
    and hs: "handler s' = handler s"
    and ls: "loops s' = (loops s)[l := (loops s ! l)\<lparr>l_pc := Deleting\<rparr>]"
    using st by (auto simp: step.simps step_loop_wait_def split: if_splits)
  from d have "distinct (map l_addrstr (loops s))"
    unfolding keys_once_def ls by (simp add: keys_update [OF l])
  with inv have "all_registered (loops s) (entries (handler s))"
    by (simp add: keys_once_def)
  then show ?thesis
    unfolding ls hs using l pc by (intro all_registered_update) simp_all
next
  case (Loop_Delete l)
  then have l: "l < length (loops s)" and pc: "l_pc (loops s ! l) = Deleting"
    and hs: "entries (handler s') = (entries (handler s))(l_addrstr (loops s ! l) := None)"
    and ls: "loops s' = (loops s)[l := (loops s ! l)\<lparr>l_pc := Stopping\<rparr>]"
    using st
    by (auto simp: step.simps step_loop_delete_def entries_def split: if_splits option.splits)
  from d have d0: "distinct (map l_addrstr (loops s))"
    unfolding keys_once_def ls by (simp add: keys_update [OF l])
  with inv have "all_registered (loops s) (entries (handler s))"
    by (simp add: keys_once_def)
  then show ?thesis
    unfolding ls hs using l d0 by (intro all_registered_delete) simp_all
next
  case (Loop_Stopped l)
  then have l: "l < length (loops s)" and pc: "l_pc (loops s ! l) = Stopping"
    and hs: "handler s' = handler s"
    and ls: "loops s' = (loops s)[l := (loops s ! l)\<lparr>l_pc := Finished\<rparr>]"
    using st by (auto simp: step.simps step_loop_stopped_def Let_def split: if_splits)
  from d have "distinct (map l_addrstr (loops s))"
    unfolding keys_once_def ls by (simp add: keys_update [OF l])
  with inv have "all_registered (loops s) (entries (handler s))"
    by (simp add: keys_once_def)
  then show ?thesis
    unfolding ls hs using l pc by (intro all_registered_update) simp_all
next
  case (Task_Open t r)
  then have "loops s' = loops s" "handler s' = handler s"
    using st by (auto simp: step.simps step_task_open_def Let_def split: if_splits prod.splits)
  with inv d show ?thesis by (simp add: keys_once_def)
next
  case (Task_Return t)
  then have "loops s' = loops s" "handler s' = handler s"
    using st by (auto simp: step.simps step_task_return_def Let_def split: if_splits)
  with inv d show ?thesis by (simp add: keys_once_def)
qed

lemma converse_run:
  "keys_once s \<longrightarrow> all_registered (loops s) (entries (handler s)) \<Longrightarrow>
   run srv acts s = Some s' \<Longrightarrow>
   keys_once s' \<longrightarrow> all_registered (loops s') (entries (handler s'))"
proof (induction acts arbitrary: s)
  case Nil
  then show ?case by simp
next
  case (Cons a acts)
  from Cons.prems(2) obtain s1 where s1: "step srv a s = Some s1" "run srv acts s1 = Some s'"
    by (cases "step srv a s") auto
  have "keys_once s1 \<longrightarrow> all_registered (loops s1) (entries (handler s1))"
    using converse_step [OF Cons.prems(1) s1(1)] by blast
  then show ?case using s1(2) by (rule Cons.IH)
qed

lemma converse_init: "keys_once init_system \<longrightarrow>
  all_registered (loops init_system) (entries (handler init_system))"
  by (simp add: all_registered_def init_system_def)

lemma accepting_has_entry:
  assumes "all_registered (loops s) (entries (handler s))" and "accepting s k"
  shows "\<exists>ln. entries (handler s) k = Some ln \<and> ln \<notin> closed s"
proof -
  from assms(2) obtain L where L: "L \<in> set (loops s)" "l_addrstr L = k" "l_pc L = Accepting"
    "l_ln L \<notin> closed s"
    unfolding accepting_def by blast
  from L(1) obtain l where l: "l < length (loops s)" "loops s ! l = L"
    by (auto simp: in_set_conv_nth)
  with assms(1) L(3) have "entries (handler s) (l_addrstr L) = Some (l_ln L)"
    unfolding all_registered_def by auto
  with L show ?thesis by auto
qed

lemma example_run_forward:
  "map_option (\<lambda>s. (observe ''localhost:0'' s, map l_addrstr (loops s)))
     (run allow_all [Call_HandleSSHRequest example_env 0 example_forward] init_system)
   = Some ((Some example_listener, True), [''localhost:0''])"
  by (simp add: step.simps step_call_def init_system_def emit_def
      HandleSSHRequest_example_forward [OF env_facts(1,2)]
      entries_def accepting_def init_forwards_def observe_def)

text \<open>
  Claim C2, as amended. In every state of every execution: a registry entry for a key
  maps to a listener whose accept loop, started for that key by a successful
  tcpip-forward, has not yet run its deletion (the listener itself may already be
  closed); conversely, as long as no key has been registered by more than one
  tcpip-forward, whenever a listener is accepting connections for a key the registry has
  an entry for that key, and the entry's listener is open; the registry is exactly what
  the stores and deletions recorded in the trace build; every store is made by
  \<^verbatim>\<open>HandleSSHRequest\<close>, and only in a tcpip-forward call that answers \<open>true\<close>; every
  deletion is made by an accept loop; and every access to the map happens with the mutex
  held.
\<close>

theorem registry_entries_and_mutations:
  assumes "run srv acts init_system = Some s"
  shows "(\<forall>k ln. entries (handler s) k = Some ln \<longrightarrow> has_loop (loops s) k ln) \<and>
         (keys_once s \<longrightarrow>
            (\<forall>k. accepting s k \<longrightarrow> (\<exists>ln. entries (handler s) k = Some ln \<and> ln \<notin> closed s))) \<and>
         entries (handler s) = replay (map snd (trace s)) \<and>
         (\<forall>(who, e) \<in> set (trace s).
            (\<forall>k ln. e = forwards_store k ln \<longrightarrow> who = Handler) \<and>
            (\<forall>k. e = forwards_delete k \<longrightarrow> (\<exists>l. who = Loop l))) \<and>
         (\<forall>env h ctx req k ln.
            forwards_store k ln \<in> set (snd (snd (HandleSSHRequest env h ctx srv req))) \<longrightarrow>
            Type req = ''tcpip-forward'' \<and>
            (\<exists>p. fst (HandleSSHRequest env h ctx srv req) = Reply True (Some p))) \<and>
         under_lock False (map snd (trace s))"
proof -
  note inv = registry_inv_run [OF registry_inv_init assms, unfolded registry_inv_def]
  note cv = converse_run [OF converse_init assms]
  have st: "\<forall>env h ctx req k ln.
            forwards_store k ln \<in> set (snd (snd (HandleSSHRequest env h ctx srv req))) \<longrightarrow>
            Type req = ''tcpip-forward'' \<and>
            (\<exists>p. fst (HandleSSHRequest env h ctx srv req) = Reply True (Some p))"
    by (intro allI impI) (rule HandleSSHRequest_store)
  have ac: "keys_once s \<longrightarrow>
            (\<forall>k. accepting s k \<longrightarrow> (\<exists>ln. entries (handler s) k = Some ln \<and> ln \<notin> closed s))"
  proof (intro impI allI)
    fix k
    assume "keys_once s" and a: "accepting s k"
    with cv have "all_registered (loops s) (entries (handler s))" by simp
    then show "\<exists>ln. entries (handler s) k = Some ln \<and> ln \<notin> closed s"
      using a by (rule accepting_has_entry)
  qed
  from inv have "\<forall>k ln. entries (handler s) k = Some ln \<longrightarrow> has_loop (loops s) k ln"
    and "entries (handler s) = replay (map snd (trace s))"
    and "\<forall>(who, e) \<in> set (trace s).
            (\<forall>k ln. e = forwards_store k ln \<longrightarrow> who = Handler) \<and>
            (\<forall>k. e = forwards_delete k \<longrightarrow> (\<exists>l. who = Loop l))"
    and "under_lock False (map snd (trace s))"
    by simp_all
  with st ac show ?thesis by (intro conjI)
qed

theorem registry_entries_and_mutations_witness:
  "(\<exists>s. run allow_all
          [Call_HandleSSHRequest example_env 0 example_forward,
           Call_HandleSSHRequest example_env 0 example_cancel] init_system = Some s \<and>
        entries (handler s) ''localhost:0'' = Some example_listener \<and>
        has_loop (loops s) ''localhost:0'' example_listener \<and>
        under_lock False (map snd (trace s))) \<and>
   (\<exists>s. run allow_all [Call_HandleSSHRequest example_env 0 example_forward] init_system = Some s \<and>
        keys_once s \<and> accepting s ''localhost:0'' \<and>
        entries (handler s) ''localhost:0'' = Some example_listener \<and>
        example_listener \<notin> closed s)"
proof
  let ?acts = "[Call_HandleSSHRequest example_env 0 example_forward,
               Call_HandleSSHRequest example_env 0 example_cancel]"
  obtain s where r: "run allow_all ?acts init_system = Some s"
    and o: "observe ''localhost:0'' s = (Some example_listener, False)"
    using example_run_cancel by (cases "run allow_all ?acts init_system") auto
  from o have e: "entries (handler s) ''localhost:0'' = Some example_listener"
    by (simp add: observe_def)
  note t = registry_entries_and_mutations [OF r]
  from t have a: "\<forall>k ln. entries (handler s) k = Some ln \<longrightarrow> has_loop (loops s) k ln"
    by (rule conjunct1)
  from t have u: "under_lock False (map snd (trace s))"
    by simp
  from a e have "has_loop (loops s) ''localhost:0'' example_listener"
    by simp
  with r e u show "\<exists>s. run allow_all ?acts init_system = Some s \<and>
        entries (handler s) ''localhost:0'' = Some example_listener \<and>
        has_loop (loops s) ''localhost:0'' example_listener \<and>
        under_lock False (map snd (trace s))"
    by (intro exI [of _ s] conjI)
next
  let ?acts = "[Call_HandleSSHRequest example_env 0 example_forward]"
  obtain s where r: "run allow_all ?acts init_system = Some s"
    and o: "observe ''localhost:0'' s = (Some example_listener, True)"
    and ks: "map l_addrstr (loops s) = [''localhost:0'']"
    using example_run_forward by (cases "run allow_all ?acts init_system") auto
  from o have e: "entries (handler s) ''localhost:0'' = Some example_listener"
    and a: "accepting s ''localhost:0''"
    by (simp_all add: observe_def)
  from ks have k: "keys_once s"
    by (simp add: keys_once_def)
  note t = registry_entries_and_mutations [OF r]
  from t have 2: "keys_once s \<longrightarrow>
            (\<forall>k. accepting s k \<longrightarrow> (\<exists>ln. entries (handler s) k = Some ln \<and> ln \<notin> closed s))"
    by (rule conjunct2 [THEN conjunct1])
  from 2 k a obtain ln where "entries (handler s) ''localhost:0'' = Some ln" "ln \<notin> closed s"
    by blast
  with e have c: "example_listener \<notin> closed s"
    by simp
  from r k a e c show "\<exists>s. run allow_all ?acts init_system = Some s \<and>
        keys_once s \<and> accepting s ''localhost:0'' \<and>
        entries (handler s) ''localhost:0'' = Some example_listener \<and>
        example_listener \<notin> closed s"
    by (intro exI [of _ s] conjI)
qed

text \<open>
  The equivalence that claim C2 states fails from left to right. After a tcpip-forward
  and a cancel-tcpip-forward for the same key, the listener is closed and no longer
  accepting, and the entry is still there: cancel only closes the listener (lines
  240-242), and the accept loop removes the entry later (lines 215-218).
\<close>

theorem registry_iff_accepting_counterexample:
  "map_option (observe ''localhost:0'')
     (run allow_all
        [Call_HandleSSHRequest example_env 0 example_forward,
         Call_HandleSSHRequest example_env 0 example_cancel] init_system)
   = Some (Some example_listener, False)"
  by (rule example_run_cancel)

subsection \<open>The wait group of an accept loop\<close>

lemma no_open_append:
  "no_open_after_stopped l b (xs @ ys) =
     (no_open_after_stopped l b xs \<and>
      no_open_after_stopped l (b \<or> (\<exists>e \<in> set xs. loop_stopped_event l e)) ys)"
  by (induction xs arbitrary: b) auto

lemma no_open_quiet:
  "\<forall>e \<in> set tr. \<not> task_open_event l e \<Longrightarrow> no_open_after_stopped l b tr"
  by (induction tr arbitrary: b) auto

lemma no_open_unstopped:
  "\<forall>e \<in> set tr. \<not> loop_stopped_event l e \<Longrightarrow> no_open_after_stopped l False tr"
  by (induction tr) auto

lemma length_filter_update:
  "i < length xs \<Longrightarrow>
   length (filter P (xs[i := x])) + (if P (xs ! i) then 1 else 0) =
   length (filter P xs) + (if P x then 1 else 0)"
proof (induction xs arbitrary: i)
  case Nil
  then show ?case by simp
next
  case (Cons y ys)
  then show ?case by (cases i) auto
qed

lemma live_tasks_update:
  "t < length ts \<Longrightarrow>
   live_tasks l (ts[t := T]) + (if t_loop (ts ! t) = l \<and> t_pc (ts ! t) \<noteq> Returned then 1 else 0) =
   live_tasks l ts + (if t_loop T = l \<and> t_pc T \<noteq> Returned then 1 else 0)"
  unfolding live_tasks_def
  using length_filter_update [of t ts "\<lambda>T. t_loop T = l \<and> t_pc T \<noteq> Returned" T] by simp

lemma live_tasks_append:
  "live_tasks l (ts @ [T]) = live_tasks l ts + (if t_loop T = l \<and> t_pc T \<noteq> Returned then 1 else 0)"
  by (simp add: live_tasks_def)

lemma live_tasks_pos:
  assumes "t < length ts" and "t_loop (ts ! t) = l" and "t_pc (ts ! t) \<noteq> Returned"
  shows "0 < live_tasks l ts"
proof -
  have "ts ! t \<in> set (filter (\<lambda>T. t_loop T = l \<and> t_pc T \<noteq> Returned) ts)"
    using assms by simp
  then have "0 < length (filter (\<lambda>T. t_loop T = l \<and> t_pc T \<noteq> Returned) ts)"
    by (rule length_pos_if_in_set)
  then show ?thesis
    unfolding live_tasks_def .
qed

lemma tasks_start_task:
  "tasks (start_task l s (accept_iteration ctx ln b dp c)) =
     tasks s @ [\<lparr>t_loop = l, t_ctx = ctx, t_ln = ln, t_conn = c, t_bindAddr = b, t_destPort = dp,
       t_originAddr = fst (SplitHostPort (Addr_String (RemoteAddr c))),
       t_originPort = fst (Atoi (fst (snd (SplitHostPort (Addr_String (RemoteAddr c)))))),
       t_payload = Marshal_remoteForwardChannelData
         \<lparr>DestAddr_remote = b, DestPort_remote = word_of_int dp,
          OriginAddr_remote = fst (SplitHostPort (Addr_String (RemoteAddr c))),
          OriginPort_remote = word_of_int
            (fst (Atoi (fst (snd (SplitHostPort (Addr_String (RemoteAddr c)))))))\<rparr>,
       t_pc = Starting\<rparr>]"
  by (simp add: accept_iteration_def Let_def)

lemma loop_of_Accepting: "L \<in> set (loop_of e) \<Longrightarrow> l_pc L = Accepting"
  by (cases e rule: loop_of.cases) auto

text \<open>What a step does to the tasks and the wait groups.\<close>

lemma step_lwg:
  assumes "\<forall>l. lwg s l = live_tasks l (tasks s)" and "step srv a s = Some s'"
  shows "\<forall>l. lwg s' l = live_tasks l (tasks s')"
proof (cases a)
  case (Call_HandleSSHRequest env ctx req)
  then show ?thesis
    using assms by (auto simp: step.simps step_call_def split: if_splits prod.splits)
next
  case (Ctx_Done ctx)
  then show ?thesis using assms by (auto simp: step.simps split: if_splits)
next
  case (Watcher_Lookup w)
  then show ?thesis
    using assms by (auto simp: step.simps step_watcher_lookup_def split: if_splits)
next
  case (Watcher_Close w)
  then show ?thesis
    using assms
    by (auto simp: step.simps step_watcher_close_def split: if_splits watcher_pc.splits)
next
  case (Loop_Accept l r)
  then show ?thesis
    using assms
    by (auto simp: step.simps step_loop_accept_def Let_def tasks_start_task live_tasks_append
        split: if_splits sum.splits)
next
  case (Loop_Wait l)
  then show ?thesis using assms by (auto simp: step.simps step_loop_wait_def split: if_splits)
next
  case (Loop_Delete l)
  then show ?thesis using assms by (auto simp: step.simps step_loop_delete_def split: if_splits)
next
  case (Loop_Stopped l)
  then show ?thesis
    using assms by (auto simp: step.simps step_loop_stopped_def Let_def split: if_splits)
next
  case (Task_Open t r)
  then have st: "step_task_open t r s = Some s'"
    using assms(2) by (auto simp: step.simps split: if_splits)
  then have t: "t < length (tasks s)" and pc: "t_pc (tasks s ! t) = Starting"
    by (auto simp: step_task_open_def split: if_splits)
  let ?T = "tasks s ! t"
  from st consider
      "tasks s' = (tasks s)[t := ?T\<lparr>t_pc := Relaying\<rparr>]" "lwg s' = lwg s"
    | "tasks s' = (tasks s)[t := ?T\<lparr>t_pc := Returned\<rparr>]"
      "lwg s' = (lwg s)(t_loop ?T := lwg s (t_loop ?T) - 1)"
    by (auto simp: step_task_open_def Let_def split: if_splits prod.splits)
  then show ?thesis
  proof cases
    case 1
    show ?thesis
      using assms(1) live_tasks_update [OF t, of _ "?T\<lparr>t_pc := Relaying\<rparr>"] pc
      by (auto simp: 1 split: if_splits)
  next
    case 2
    show ?thesis
    proof
      fix l
      show "lwg s' l = live_tasks l (tasks s')"
        using assms(1) live_tasks_update [OF t, of l "?T\<lparr>t_pc := Returned\<rparr>"] pc
        by (auto simp: 2 split: if_splits)
    qed
  qed
next
  case (Task_Return t)
  then have st: "step_task_return t s = Some s'"
    using assms(2) by (auto simp: step.simps split: if_splits)
  then have t: "t < length (tasks s)" and pc: "t_pc (tasks s ! t) = Relaying"
    by (auto simp: step_task_return_def split: if_splits)
  let ?T = "tasks s ! t"
  from st have 2: "tasks s' = (tasks s)[t := ?T\<lparr>t_pc := Returned\<rparr>]"
      "lwg s' = (lwg s)(t_loop ?T := lwg s (t_loop ?T) - 1)"
    by (auto simp: step_task_return_def Let_def split: if_splits)
  show ?thesis
  proof
    fix l
    show "lwg s' l = live_tasks l (tasks s')"
      using assms(1) live_tasks_update [OF t, of l "?T\<lparr>t_pc := Returned\<rparr>"] pc
      by (auto simp: 2 split: if_splits)
  qed
qed


text \<open>A loop past its wait has the counter at zero.\<close>

lemma step_past_wait:
  assumes "\<forall>l < length (loops s).
             l_pc (loops s ! l) \<in> {Deleting, Stopping, Finished} \<longrightarrow> lwg s l = 0"
    and "step srv a s = Some s'"
  shows "\<forall>l < length (loops s').
           l_pc (loops s' ! l) \<in> {Deleting, Stopping, Finished} \<longrightarrow> lwg s' l = 0"
proof (cases a)
  case (Call_HandleSSHRequest env ctx req)
  obtain r h evs where H: "HandleSSHRequest env (handler s) ctx srv req = (r, h, evs)"
    by (cases "HandleSSHRequest env (handler s) ctx srv req") auto
  with Call_HandleSSHRequest assms(2)
  have ls: "loops s' = loops s @ concat (map loop_of evs)" and lw: "lwg s' = lwg s"
    by (auto simp: step.simps step_call_def split: if_splits)
  have "l_pc L = Accepting" if "L \<in> set (concat (map loop_of evs))" for L
    using that loop_of_Accepting by auto
  then have "l_pc (concat (map loop_of evs) ! j) = Accepting"
    if "j < length (concat (map loop_of evs))" for j
    using that nth_mem by blast
  then show ?thesis
    using assms(1) by (auto simp: ls lw nth_append)
next
  case (Ctx_Done ctx)
  then show ?thesis using assms by (auto simp: step.simps split: if_splits)
next
  case (Watcher_Lookup w)
  then show ?thesis
    using assms by (auto simp: step.simps step_watcher_lookup_def split: if_splits)
next
  case (Watcher_Close w)
  then show ?thesis
    using assms
    by (auto simp: step.simps step_watcher_close_def split: if_splits watcher_pc.splits)
next
  case (Loop_Accept l r)
  then show ?thesis
    using assms
    by (auto simp: step.simps step_loop_accept_def Let_def nth_list_update
        split: if_splits sum.splits)
next
  case (Loop_Wait l)
  then show ?thesis
    using assms by (auto simp: step.simps step_loop_wait_def nth_list_update split: if_splits)
next
  case (Loop_Delete l)
  then show ?thesis
    using assms by (auto simp: step.simps step_loop_delete_def nth_list_update split: if_splits)
next
  case (Loop_Stopped l)
  then show ?thesis
    using assms
    by (auto simp: step.simps step_loop_stopped_def Let_def nth_list_update split: if_splits)
next
  case (Task_Open t r)
  then show ?thesis
    using assms
    by (auto simp: step.simps step_task_open_def Let_def split: if_splits prod.splits)
next
  case (Task_Return t)
  then show ?thesis
    using assms by (auto simp: step.simps step_task_return_def Let_def split: if_splits)
qed


lemma loop_stopped_event_origin: "loop_stopped_event l (who, e) \<Longrightarrow> who = Loop l"
  by (cases "(l, (who, e))" rule: loop_stopped_event.cases) auto

lemma loop_stopped_event_call:
  "loop_stopped_event l (who, e) \<Longrightarrow>
   \<exists>ctx a b ln c. e = Call_ReversePortForwardingCallback ctx a b (- 1) ln c"
  by (cases "(l, (who, e))" rule: loop_stopped_event.cases) auto

lemma task_open_event_origin: "task_open_event l (who, e) \<Longrightarrow> \<exists>t. who = Task l t"
  by (cases "(l, (who, e))" rule: task_open_event.cases) auto

text \<open>The events that a step adds to the trace, and who makes them.\<close>

lemma step_events:
  assumes "step srv a s = Some s'"
  shows "\<exists>who evs. trace s' = trace s @ map (Pair who) evs \<and>
     ((\<exists>l. a = Loop_Stopped l \<and> who = Loop l) \<or>
      (\<forall>l e. e \<in> set evs \<longrightarrow> \<not> loop_stopped_event l (who, e))) \<and>
     ((\<exists>t r. a = Task_Open t r \<and> who = Task (t_loop (tasks s ! t)) t \<and>
             t < length (tasks s) \<and> t_pc (tasks s ! t) = Starting) \<or>
      (\<forall>l e. e \<in> set evs \<longrightarrow> \<not> task_open_event l (who, e)))"
proof (cases a)
  case (Call_HandleSSHRequest env ctx req)
  obtain r h evs where H: "HandleSSHRequest env (handler s) ctx srv req = (r, h, evs)"
    by (cases "HandleSSHRequest env (handler s) ctx srv req") auto
  with Call_HandleSSHRequest assms
  have "trace s' = trace s @ map (Pair Handler) evs"
    by (auto simp: step.simps step_call_def split: if_splits)
  then show ?thesis
    by (intro exI [of _ Handler] exI [of _ evs]) auto
next
  case (Ctx_Done ctx)
  then have "trace s' = trace s @ map (Pair Handler) []"
    using assms by (auto simp: step.simps split: if_splits)
  then show ?thesis
    by (intro exI [of _ Handler] exI [of _ "[]"]) auto
next
  case (Watcher_Lookup w)
  then have "trace s' = trace s @ map (Pair (Watcher w))
      [Lock, forwards_load (w_addrstr (watchers s ! w)), Unlock]"
    using assms by (auto simp: step.simps step_watcher_lookup_def split: if_splits)
  then show ?thesis
    by (intro exI [of _ "Watcher w"]
          exI [of _ "[Lock, forwards_load (w_addrstr (watchers s ! w)), Unlock]"]) auto
next
  case (Watcher_Close w)
  then obtain ln where "trace s' = trace s @ map (Pair (Watcher w)) [Close_Listener ln]"
    using assms
    by (auto simp: step.simps step_watcher_close_def split: if_splits watcher_pc.splits)
  then show ?thesis
    by (intro exI [of _ "Watcher w"] exI [of _ "[Close_Listener ln]"]) auto
next
  case (Loop_Accept l r)
  then have st: "step_loop_accept l r s = Some s'"
    using assms by (auto simp: step.simps split: if_splits)
  define evs where "evs =
     (case r of
        Inl err \<Rightarrow>
          if \<not> is_ErrClosed err
          then [logMsg ''failed to accept connection on %s - %s''
                  [Addr_String (ln_Addr (l_ln (loops s ! l))), Error err]]
          else []
      | Inr c \<Rightarrow>
          [lwg_Add, Go (accept_iteration (l_ctx (loops s ! l)) (l_ln (loops s ! l))
                          (l_bindAddr (loops s ! l)) (l_destPort (loops s ! l)) c)])"
  have "trace s' = trace s @ map (Pair (Loop l)) evs"
    using st by (auto simp: evs_def step_loop_accept_def Let_def split: if_splits sum.splits)
  moreover have "\<forall>e \<in> set evs. \<forall>ctx a b sig ln c.
      e \<noteq> Call_ReversePortForwardingCallback ctx a b sig ln c"
    by (auto simp: evs_def split: sum.splits)
  then have "\<not> loop_stopped_event la (Loop l, e)" if "e \<in> set evs" for la e
    using that loop_stopped_event_call [of la "Loop l" e] by blast
  ultimately show ?thesis
    by (intro exI [of _ "Loop l"] exI [of _ evs]) (auto dest: task_open_event_origin)
next
  case (Loop_Wait l)
  then have "trace s' = trace s @ map (Pair (Loop l)) []"
    using assms by (auto simp: step.simps step_loop_wait_def split: if_splits)
  then show ?thesis
    by (intro exI [of _ "Loop l"] exI [of _ "[]"]) auto
next
  case (Loop_Delete l)
  then have "trace s' = trace s @ map (Pair (Loop l))
       [Lock, forwards_delete (l_addrstr (loops s ! l)), Unlock]"
    using assms by (auto simp: step.simps step_loop_delete_def split: if_splits)
  then show ?thesis
    by (intro exI [of _ "Loop l"]
          exI [of _ "[Lock, forwards_delete (l_addrstr (loops s ! l)), Unlock]"]) auto
next
  case (Loop_Stopped l)
  let ?evs = "[Call_ReversePortForwardingCallback (l_ctx (loops s ! l))
                 (Some (l_addr (loops s ! l))) None (- 1) None None,
               logMsg ''port forward ended on %s for %s''
                 [TCPAddr_String (l_addr (loops s ! l)), l_remote (loops s ! l)]]"
  from Loop_Stopped have "trace s' = trace s @ map (Pair (Loop l)) ?evs"
    using assms by (auto simp: step.simps step_loop_stopped_def Let_def split: if_splits)
  with Loop_Stopped show ?thesis
    by (intro exI [of _ "Loop l"] exI [of _ ?evs]) (auto dest: task_open_event_origin)
next
  case (Task_Open t r)
  then have st: "step_task_open t r s = Some s'"
    using assms by (auto simp: step.simps split: if_splits)
  then have t: "t < length (tasks s)" "t_pc (tasks s ! t) = Starting"
    by (auto simp: step_task_open_def split: if_splits)
  define evs where "evs =
     (case task_open (t_ctx (tasks s ! t)) (t_ln (tasks s ! t)) (t_conn (tasks s ! t))
             (t_bindAddr (tasks s ! t)) (t_destPort (tasks s ! t)) (t_originAddr (tasks s ! t))
             (t_originPort (tasks s ! t)) (t_payload (tasks s ! t)) r of
        (evs, relays) \<Rightarrow> if relays then evs else evs @ [lwg_Done])"
  from st have "trace s' = trace s @ map (Pair (Task (t_loop (tasks s ! t)) t)) evs"
    by (auto simp: evs_def step_task_open_def Let_def split: if_splits prod.splits)
  with Task_Open t show ?thesis
    by (intro exI [of _ "Task (t_loop (tasks s ! t)) t"] exI [of _ evs])
       (auto dest: loop_stopped_event_origin)
next
  case (Task_Return t)
  let ?T = "tasks s ! t"
  let ?evs = "task_close (t_ctx ?T) (t_ln ?T) (t_conn ?T) (t_bindAddr ?T) (t_destPort ?T)
                 (t_originAddr ?T) (t_originPort ?T) @ [lwg_Done]"
  from Task_Return have "trace s' = trace s @ map (Pair (Task (t_loop ?T) t)) ?evs"
    using assms by (auto simp: step.simps step_task_return_def Let_def split: if_splits)
  then show ?thesis
    by (intro exI [of _ "Task (t_loop ?T) t"] exI [of _ ?evs])
       (auto simp: task_close_def dest: loop_stopped_event_origin)
qed

text \<open>What a step does to the accept loops.\<close>

lemma step_loops:
  assumes "step srv a s = Some s'"
  shows "length (loops s) \<le> length (loops s') \<and>
     (\<forall>l < length (loops s). l_pc (loops s ! l) = Finished \<longrightarrow> l_pc (loops s' ! l) = Finished) \<and>
     (\<forall>l. a = Loop_Stopped l \<longrightarrow> l < length (loops s') \<and> l_pc (loops s' ! l) = Finished)"
proof (cases a)
  case (Call_HandleSSHRequest env ctx req)
  then show ?thesis
    using assms
    by (auto simp: step.simps step_call_def nth_append split: if_splits prod.splits)
next
  case (Ctx_Done ctx)
  then show ?thesis using assms by (auto simp: step.simps split: if_splits)
next
  case (Watcher_Lookup w)
  then show ?thesis
    using assms by (auto simp: step.simps step_watcher_lookup_def split: if_splits)
next
  case (Watcher_Close w)
  then show ?thesis
    using assms
    by (auto simp: step.simps step_watcher_close_def split: if_splits watcher_pc.splits)
next
  case (Loop_Accept l r)
  then show ?thesis
    using assms
    by (auto simp: step.simps step_loop_accept_def Let_def nth_list_update
        split: if_splits sum.splits)
next
  case (Loop_Wait l)
  then show ?thesis
    using assms by (auto simp: step.simps step_loop_wait_def nth_list_update split: if_splits)
next
  case (Loop_Delete l)
  then show ?thesis
    using assms by (auto simp: step.simps step_loop_delete_def nth_list_update split: if_splits)
next
  case (Loop_Stopped l)
  then show ?thesis
    using assms
    by (auto simp: step.simps step_loop_stopped_def Let_def nth_list_update split: if_splits)
next
  case (Task_Open t r)
  then show ?thesis
    using assms
    by (auto simp: step.simps step_task_open_def Let_def split: if_splits prod.splits)
next
  case (Task_Return t)
  then show ?thesis
    using assms by (auto simp: step.simps step_task_return_def Let_def split: if_splits)
qed


lemma wait_invD:
  assumes "wait_inv s"
  shows "lwg s l = live_tasks l (tasks s)"
    and "l < length (loops s) \<Longrightarrow> l_pc (loops s ! l) = Finished \<Longrightarrow> lwg s l = 0"
    and "\<exists>e \<in> set (trace s). loop_stopped_event l e \<Longrightarrow>
         l < length (loops s) \<and> l_pc (loops s ! l) = Finished"
    and "no_open_after_stopped l False (trace s)"
proof -
  note c = assms [unfolded wait_inv_def]
  note k1 = c [THEN conjunct1]
    and k2 = c [THEN conjunct2, THEN conjunct1]
    and k3 = c [THEN conjunct2, THEN conjunct2, THEN conjunct1]
    and k4 = c [THEN conjunct2, THEN conjunct2, THEN conjunct2]
  show "lwg s l = live_tasks l (tasks s)" using k1 by (rule spec)
  show "lwg s l = 0" if "l < length (loops s)" "l_pc (loops s ! l) = Finished"
    using k2 that by simp
  show "l < length (loops s) \<and> l_pc (loops s ! l) = Finished"
    if "\<exists>e \<in> set (trace s). loop_stopped_event l e"
    using k3 that by (elim allE [of _ l] impE) assumption+
  show "no_open_after_stopped l False (trace s)" using k4 by (rule spec)
qed

lemma step_stopped:
  assumes "\<forall>l. (\<exists>e \<in> set (trace s). loop_stopped_event l e) \<longrightarrow>
             l < length (loops s) \<and> l_pc (loops s ! l) = Finished"
    and "step srv a s = Some s'"
  shows "\<forall>l. (\<exists>e \<in> set (trace s'). loop_stopped_event l e) \<longrightarrow>
           l < length (loops s') \<and> l_pc (loops s' ! l) = Finished"
proof (intro allI impI)
  fix l
  assume "\<exists>e \<in> set (trace s'). loop_stopped_event l e"
  then obtain e where e: "e \<in> set (trace s')" "loop_stopped_event l e" by blast
  from step_events [OF assms(2)] obtain who evs where
    tr: "trace s' = trace s @ map (Pair who) evs"
    and st: "(\<exists>l. a = Loop_Stopped l \<and> who = Loop l) \<or>
             (\<forall>l e. e \<in> set evs \<longrightarrow> \<not> loop_stopped_event l (who, e))"
    by blast
  note ls = step_loops [OF assms(2)]
  from e(1) consider "e \<in> set (trace s)" | ev where "ev \<in> set evs" "e = (who, ev)"
    unfolding tr by auto
  then show "l < length (loops s') \<and> l_pc (loops s' ! l) = Finished"
  proof cases
    case 1
    with e(2) assms(1) have "l < length (loops s)" "l_pc (loops s ! l) = Finished"
      by blast+
    with ls show ?thesis by auto
  next
    case 2
    with e(2) st obtain l' where l': "a = Loop_Stopped l'" "who = Loop l'"
      by blast
    from e(2) 2 have "who = Loop l"
      using loop_stopped_event_origin by blast
    with l' have "a = Loop_Stopped l" by simp
    with ls show ?thesis by blast
  qed
qed

lemma step_no_open:
  assumes "wait_inv s" and "step srv a s = Some s'"
  shows "no_open_after_stopped l False (trace s')"
proof -
  note inv = wait_invD [OF assms(1)]
  from step_events [OF assms(2)] obtain who evs where
    tr: "trace s' = trace s @ map (Pair who) evs"
    and op: "(\<exists>t r. a = Task_Open t r \<and> who = Task (t_loop (tasks s ! t)) t \<and>
                t < length (tasks s) \<and> t_pc (tasks s ! t) = Starting) \<or>
             (\<forall>l e. e \<in> set evs \<longrightarrow> \<not> task_open_event l (who, e))"
    by blast
  have old: "no_open_after_stopped l False (trace s)"
    by (rule inv(4))
  have new: "no_open_after_stopped l (\<exists>e \<in> set (trace s). loop_stopped_event l e)
               (map (Pair who) evs)"
  proof (cases "\<forall>e \<in> set evs. \<not> task_open_event l (who, e)")
    case True
    then show ?thesis by (intro no_open_quiet) auto
  next
    case False
    then obtain ev where ev: "ev \<in> set evs" "task_open_event l (who, ev)" by blast
    with op obtain t r where t: "a = Task_Open t r" "who = Task (t_loop (tasks s ! t)) t"
      "t < length (tasks s)" "t_pc (tasks s ! t) = Starting"
      by blast
    from ev(2) t(2) have l: "t_loop (tasks s ! t) = l"
      using task_open_event_origin by blast
    have live: "0 < live_tasks l (tasks s)"
      using t(3) l t(4) by (intro live_tasks_pos [of t]) simp_all
    have ns: "\<not> (\<exists>e \<in> set (trace s). loop_stopped_event l e)"
    proof
      assume "\<exists>e \<in> set (trace s). loop_stopped_event l e"
      then have "l < length (loops s) \<and> l_pc (loops s ! l) = Finished" by (rule inv(3))
      then have "lwg s l = 0" using inv(2) by simp
      then have "live_tasks l (tasks s) = 0" using inv(1) [of l] by simp
      with live show False by simp
    qed
    have "\<not> loop_stopped_event l e" if "e \<in> set (map (Pair who) evs)" for e
    proof
      assume a: "loop_stopped_event l e"
      from that obtain ev' where "e = (who, ev')" by auto
      with a have "who = Loop l" using loop_stopped_event_origin by blast
      with t(2) show False by simp
    qed
    then have "\<forall>e \<in> set (map (Pair who) evs). \<not> loop_stopped_event l e"
      by blast
    then have "no_open_after_stopped l False (map (Pair who) evs)"
      by (rule no_open_unstopped)
    with ns show ?thesis by simp
  qed
  show ?thesis
    unfolding tr no_open_append using old new by simp
qed

lemma wait_inv_init: "wait_inv init_system"
  by (simp add: wait_inv_def init_system_def live_tasks_def)

lemma wait_inv_step:
  assumes "wait_inv s" and "step srv a s = Some s'"
  shows "wait_inv s'"
  unfolding wait_inv_def
proof (intro conjI)
  note c = assms(1) [unfolded wait_inv_def]
  note k1 = c [THEN conjunct1]
    and k2 = c [THEN conjunct2, THEN conjunct1]
    and k3 = c [THEN conjunct2, THEN conjunct2, THEN conjunct1]
  show "\<forall>l. lwg s' l = live_tasks l (tasks s')"
    using k1 assms(2) by (rule step_lwg)
  show "\<forall>l < length (loops s').
           l_pc (loops s' ! l) \<in> {Deleting, Stopping, Finished} \<longrightarrow> lwg s' l = 0"
    using k2 assms(2) by (rule step_past_wait)
  show "\<forall>l. (\<exists>e \<in> set (trace s'). loop_stopped_event l e) \<longrightarrow>
           l < length (loops s') \<and> l_pc (loops s' ! l) = Finished"
    using k3 assms(2) by (rule step_stopped)
  show "\<forall>l. no_open_after_stopped l False (trace s')"
    by (intro allI) (rule step_no_open [OF assms])
qed

lemma wait_inv_run: "wait_inv s \<Longrightarrow> run srv acts s = Some s' \<Longrightarrow> wait_inv s'"
proof (induction acts arbitrary: s)
  case Nil
  then show ?case by simp
next
  case (Cons a acts)
  from Cons.prems(2) obtain s1 where s1: "step srv a s = Some s1" "run srv acts s1 = Some s'"
    by (cases "step srv a s") auto
  from Cons.prems(1) s1(1) have "wait_inv s1" by (rule wait_inv_step)
  then show ?case using s1(2) by (rule Cons.IH)
qed

lemma live_tasks_zero:
  assumes "live_tasks l ts = 0" and "T \<in> set ts" and "t_loop T = l"
  shows "t_pc T = Returned"
proof -
  from assms(1) have "filter (\<lambda>T. t_loop T = l \<and> t_pc T \<noteq> Returned) ts = []"
    by (simp add: live_tasks_def)
  then show ?thesis
    using assms(2,3) by (simp add: filter_empty_conv)
qed

text \<open>
  Claim C5. In every execution, once the stopped callback (signal \<open>-1\<close>) of an accept
  loop's draining step has been made, every forwarding task that the loop started has
  returned, and no channel-open callback (signal 2) of a task of that loop occurs after
  it in the trace.
\<close>

theorem stopped_callback_after_tasks:
  assumes "run srv acts init_system = Some s"
  shows "(\<forall>l. (\<exists>e \<in> set (trace s). loop_stopped_event l e) \<longrightarrow>
            (\<forall>T \<in> set (tasks s). t_loop T = l \<longrightarrow> t_pc T = Returned)) \<and>
         (\<forall>l. no_open_after_stopped l False (trace s))"
proof (intro conjI allI impI ballI)
  note inv = wait_invD [OF wait_inv_run [OF wait_inv_init assms]]
  show "no_open_after_stopped l False (trace s)" for l
    by (rule inv(4))
  fix l T
  assume "\<exists>e \<in> set (trace s). loop_stopped_event l e" and T: "T \<in> set (tasks s)" "t_loop T = l"
  then have "l < length (loops s) \<and> l_pc (loops s ! l) = Finished" using inv(3) by blast
  then have "lwg s l = 0" using inv(2) by simp
  then have "live_tasks l (tasks s) = 0" using inv(1) [of l] by simp
  then show "t_pc T = Returned"
    using T by (rule live_tasks_zero)
qed

lemma example_lifecycle_run:
  "map_option (\<lambda>s. (map t_pc (tasks s), map l_pc (loops s), callbacks (trace s)))
     (run allow_all example_lifecycle init_system)
   = Some ([Returned], [Finished],
       [(Handler, 0), (Handler, 1), (Task 0 0, 2), (Handler, - 1), (Task 0 0, - 2),
        (Loop 0, - 1)])"
  by (simp add: example_lifecycle_def step.simps step_call_def init_system_def emit_def
      HandleSSHRequest_example_forward [OF env_facts(1,2)]
      HandleSSHRequest_example_cancel [OF env_facts(2)]
      step_loop_accept_def step_loop_wait_def step_loop_delete_def step_loop_stopped_def
      step_task_open_def step_task_return_def task_open_def task_close_def
      accept_iteration_def Let_def closed_error_def callbacks_def
      entries_def init_forwards_def example_listener_def example_tcp_conn_def)

theorem stopped_callback_after_tasks_witness:
  "\<exists>s. run allow_all example_lifecycle init_system = Some s \<and>
        map t_pc (tasks s) = [Returned] \<and>
        callbacks (trace s) =
          [(Handler, 0), (Handler, 1), (Task 0 0, 2), (Handler, - 1), (Task 0 0, - 2),
           (Loop 0, - 1)] \<and>
        no_open_after_stopped 0 False (trace s)"
proof -
  obtain s where r: "run allow_all example_lifecycle init_system = Some s"
    and o: "(map t_pc (tasks s), map l_pc (loops s), callbacks (trace s)) =
       ([Returned], [Finished],
        [(Handler, 0), (Handler, 1), (Task 0 0, 2), (Handler, - 1), (Task 0 0, - 2),
         (Loop 0, - 1)])"
    using example_lifecycle_run
    by (cases "run allow_all example_lifecycle init_system") auto
  note t = stopped_callback_after_tasks [OF r]
  from t have "\<forall>l. no_open_after_stopped l False (trace s)"
    by (rule conjunct2)
  then have n: "no_open_after_stopped 0 False (trace s)"
    by (rule spec)
  from o have "map t_pc (tasks s) = [Returned]"
    and "callbacks (trace s) =
          [(Handler, 0), (Handler, 1), (Task 0 0, 2), (Handler, - 1), (Task 0 0, - 2),
           (Loop 0, - 1)]"
    by simp_all
  with r n show ?thesis
    by (intro exI [of _ s] conjI)
qed

end
